theory Spec2Isabelle
  imports Complex_Main "HOL-Library.Word" "HOL-Library.Multiset"
    "HOL-Library.Char_ord" "HOL-Library.List_Lexorder"
begin

section \<open>Go values\<close>

text \<open>
  The monitor package of the process dashboard (\<^verbatim>\<open>internal/monitor/types.go\<close> and
  \<^verbatim>\<open>internal/monitor/monitor.go\<close>) is embedded function by function.

  \<^item> \<^verbatim>\<open>int32\<close> and \<^verbatim>\<open>uint64\<close> are words of that width: subtraction of two
    \<^verbatim>\<open>uint64\<close> wraps modulo \<open>2 ^ 64\<close>.
  \<^item> \<^verbatim>\<open>float64\<close> and \<^verbatim>\<open>float32\<close> are idealised as \<open>real\<close>: rounding, infinities
    and NaN are outside the model, the conversion \<^verbatim>\<open>float64(u)\<close> of an unsigned
    counter is \<open>real (unat u)\<close>.
  \<^item> \<^verbatim>\<open>time.Time\<close> is a reading of one clock in nanoseconds, \<^verbatim>\<open>time.Duration\<close> a
    signed 64-bit count of nanoseconds.
  \<^item> A slice is its header (backing array, offset, length, capacity); backing arrays
    and \<^verbatim>\<open>ProcessMetrics\<close> objects live in an explicit heap, so that two slices over one
    array share their elements as they do in Go.
\<close>

type_synonym addr = nat
type_synonym int32 = "32 word"
type_synonym uint64 = "64 word"
type_synonym Time = int

datatype val = TimeV Time | F64 real

datatype error = OSError nat | Canceled | DeadlineExceeded | Wrapped string error

record slice =
  ptr :: addr
  off :: nat
  len :: nat
  cap :: nat

section \<open>types.go: the data model\<close>

record ProcessInfo =
  PID :: int32
  Name :: string
  CPUPercent :: real
  MemoryMB :: real
  MemoryPerc :: real
  CreateTime :: Time
  DiskReadKB :: real
  DiskWriteKB :: real
  DiskReadRate :: real
  DiskWriteRate :: real
  DiskReadPerc :: real
  DiskWritePerc :: real
  NetSentKB :: real
  NetRecvKB :: real
  NetSentRate :: real
  NetRecvRate :: real

text \<open>The fields of \<^verbatim>\<open>SystemMetrics\<close> carry the prefix \<open>sm_\<close> and those of
  \<^verbatim>\<open>ProcessMetrics\<close> the prefix \<open>pm_\<close>, since Go reuses the names of \<^verbatim>\<open>ProcessInfo\<close>.\<close>

record SystemMetrics =
  sm_CPUPercent :: real
  sm_MemoryPercent :: real
  sm_TotalMemoryMB :: real
  sm_UsedMemoryMB :: real
  sm_Timestamp :: Time

record ProcessMetrics =
  pm_Timestamps :: slice
  pm_CPUPercent :: slice
  pm_MemoryMB :: slice
  pm_DiskReadRate :: slice
  pm_DiskWriteRate :: slice
  pm_DiskReadPerc :: slice
  pm_DiskWritePerc :: slice
  pm_NetSentRate :: slice
  pm_NetRecvRate :: slice

section \<open>The Go runtime: heap, \<^verbatim>\<open>make\<close>, \<^verbatim>\<open>append\<close>, slicing, \<^verbatim>\<open>sort.Slice\<close>\<close>

text \<open>
  Two things the Go runtime decides are parameters of the model. \<open>growslice c n\<close> is the
  capacity the runtime picks when a slice of capacity \<open>c\<close> must grow to hold \<open>n\<close>
  elements; the language only promises a sufficiently large array, which \<open>go_append\<close>
  writes out as \<open>max n (growslice c n)\<close>. \<open>sort_Slice less xs\<close> is what \<^verbatim>\<open>sort.Slice\<close>
  leaves in the slice; it is not stable, so only its contract \<open>sort_contract\<close> is assumed.
\<close>

record runtime =
  growslice :: "nat \<Rightarrow> nat \<Rightarrow> nat"
  sort_Slice :: "(ProcessInfo \<Rightarrow> ProcessInfo \<Rightarrow> bool) \<Rightarrow> ProcessInfo list \<Rightarrow> ProcessInfo list"

record heap =
  arrays :: "addr \<Rightarrow> val list"
  narrays :: addr
  structs :: "addr \<Rightarrow> ProcessMetrics"
  nstructs :: addr

text \<open>The nil slice: address 0 is never allocated.\<close>

definition nil_slice :: slice where
  "nil_slice = \<lparr>ptr = 0, off = 0, len = 0, cap = 0\<rparr>"

definition empty_heap :: heap where
  "empty_heap =
     \<lparr>arrays = (\<lambda>_. []), narrays = 1,
      structs = (\<lambda>_. \<lparr>pm_Timestamps = nil_slice, pm_CPUPercent = nil_slice,
        pm_MemoryMB = nil_slice, pm_DiskReadRate = nil_slice, pm_DiskWriteRate = nil_slice,
        pm_DiskReadPerc = nil_slice, pm_DiskWritePerc = nil_slice,
        pm_NetSentRate = nil_slice, pm_NetRecvRate = nil_slice\<rparr>),
      nstructs = 1\<rparr>"

text \<open>The elements a slice shows: \<open>s[0], ..., s[len(s)-1]\<close>.\<close>

definition contents :: "heap \<Rightarrow> slice \<Rightarrow> val list" where
  "contents h s = take (len s) (drop (off s) (arrays h (ptr s)))"

text \<open>\<^verbatim>\<open>make([]T, 0, capacity)\<close>: a fresh zeroed array of \<open>capacity\<close> elements.\<close>

definition make_slice :: "val \<Rightarrow> nat \<Rightarrow> heap \<Rightarrow> slice \<times> heap" where
  "make_slice zero capacity h =
     (\<lparr>ptr = narrays h, off = 0, len = 0, cap = capacity\<rparr>,
      h\<lparr>arrays := (arrays h)(narrays h := replicate capacity zero),
        narrays := Suc (narrays h)\<rparr>)"

text \<open>
  \<^verbatim>\<open>append(s, vs...)\<close>: when the capacity suffices the values are written into the
  backing array of \<open>s\<close> behind its last element; otherwise the elements of \<open>s\<close> and the
  values are copied to a fresh array.
\<close>

definition go_append :: "runtime \<Rightarrow> val \<Rightarrow> slice \<Rightarrow> val list \<Rightarrow> heap \<Rightarrow> slice \<times> heap" where
  "go_append rt zero s vs h =
     (let n = len s + length vs in
      if n \<le> cap s then
        (s\<lparr>len := n\<rparr>,
         h\<lparr>arrays := (arrays h)(ptr s :=
              take (off s + len s) (arrays h (ptr s)) @ vs @
              drop (off s + n) (arrays h (ptr s)))\<rparr>)
      else
        (let newcap = max n (growslice rt (cap s) n); a = narrays h in
         (\<lparr>ptr = a, off = 0, len = n, cap = newcap\<rparr>,
          h\<lparr>arrays := (arrays h)(a := contents h s @ vs @ replicate (newcap - n) zero),
            narrays := Suc a\<rparr>)))"

text \<open>\<^verbatim>\<open>s[1:]\<close>, for a slice with at least one element.\<close>

definition slice_from1 :: "slice \<Rightarrow> slice" where
  "slice_from1 s = \<lparr>ptr = ptr s, off = off s + 1, len = len s - 1, cap = cap s - 1\<rparr>"

section \<open>types.go: \<^verbatim>\<open>NewProcessMetrics\<close> and \<^verbatim>\<open>AddMetric\<close>\<close>

text \<open>The capacity is a \<open>nat\<close>: \<^verbatim>\<open>make\<close> panics on a negative capacity, and the only
  caller passes \<^verbatim>\<open>m.metricsCapacity\<close>, which \<^verbatim>\<open>NewMonitor\<close> sets to 60.\<close>

definition NewProcessMetrics :: "nat \<Rightarrow> heap \<Rightarrow> addr \<times> heap" where
  "NewProcessMetrics capacity h0 =
     (let (ts, h1) = make_slice (TimeV 0) capacity h0;
          (cp, h2) = make_slice (F64 0) capacity h1;
          (mm, h3) = make_slice (F64 0) capacity h2;
          (rr, h4) = make_slice (F64 0) capacity h3;
          (wr, h5) = make_slice (F64 0) capacity h4;
          (rp, h6) = make_slice (F64 0) capacity h5;
          (wp, h7) = make_slice (F64 0) capacity h6;
          (ns, h8) = make_slice (F64 0) capacity h7;
          (nr, h9) = make_slice (F64 0) capacity h8;
          p = nstructs h9
      in (p, h9\<lparr>structs := (structs h9)(p :=
                 \<lparr>pm_Timestamps = ts, pm_CPUPercent = cp, pm_MemoryMB = mm,
                  pm_DiskReadRate = rr, pm_DiskWriteRate = wr, pm_DiskReadPerc = rp,
                  pm_DiskWritePerc = wp, pm_NetSentRate = ns, pm_NetRecvRate = nr\<rparr>),
               nstructs := Suc p\<rparr>))"

text \<open>One data point, the arguments of \<^verbatim>\<open>AddMetric\<close> in their order.\<close>

record point =
  p_timestamp :: Time
  p_cpu :: real
  p_memory :: real
  p_diskReadRate :: real
  p_diskWriteRate :: real
  p_diskReadPerc :: real
  p_diskWritePerc :: real
  p_netSentRate :: real
  p_netRecvRate :: real

definition AddMetric :: "runtime \<Rightarrow> addr \<Rightarrow> point \<Rightarrow> heap \<Rightarrow> heap" where
  "AddMetric rt pm pt h0 =
     (let s = structs h0 pm;
          (ts, h1) = go_append rt (TimeV 0) (pm_Timestamps s) [TimeV (p_timestamp pt)] h0;
          (cp, h2) = go_append rt (F64 0) (pm_CPUPercent s) [F64 (p_cpu pt)] h1;
          (mm, h3) = go_append rt (F64 0) (pm_MemoryMB s) [F64 (p_memory pt)] h2;
          (rr, h4) = go_append rt (F64 0) (pm_DiskReadRate s) [F64 (p_diskReadRate pt)] h3;
          (wr, h5) = go_append rt (F64 0) (pm_DiskWriteRate s) [F64 (p_diskWriteRate pt)] h4;
          (rp, h6) = go_append rt (F64 0) (pm_DiskReadPerc s) [F64 (p_diskReadPerc pt)] h5;
          (wp, h7) = go_append rt (F64 0) (pm_DiskWritePerc s) [F64 (p_diskWritePerc pt)] h6;
          (ns, h8) = go_append rt (F64 0) (pm_NetSentRate s) [F64 (p_netSentRate pt)] h7;
          (nr, h9) = go_append rt (F64 0) (pm_NetRecvRate s) [F64 (p_netRecvRate pt)] h8;
          capacity = cap ts;
          s' = (if len ts > capacity then
                  \<lparr>pm_Timestamps = slice_from1 ts, pm_CPUPercent = slice_from1 cp,
                   pm_MemoryMB = slice_from1 mm, pm_DiskReadRate = slice_from1 rr,
                   pm_DiskWriteRate = slice_from1 wr, pm_DiskReadPerc = slice_from1 rp,
                   pm_DiskWritePerc = slice_from1 wp, pm_NetSentRate = slice_from1 ns,
                   pm_NetRecvRate = slice_from1 nr\<rparr>
                else
                  \<lparr>pm_Timestamps = ts, pm_CPUPercent = cp, pm_MemoryMB = mm,
                   pm_DiskReadRate = rr, pm_DiskWriteRate = wr, pm_DiskReadPerc = rp,
                   pm_DiskWritePerc = wp, pm_NetSentRate = ns, pm_NetRecvRate = nr\<rparr>)
      in h9\<lparr>structs := (structs h9)(pm := s')\<rparr>)"

text \<open>The nine sequences a \<^verbatim>\<open>ProcessMetrics\<close> object shows, in the order of its fields.\<close>

definition pm_fields :: "ProcessMetrics \<Rightarrow> slice list" where
  "pm_fields s = [pm_Timestamps s, pm_CPUPercent s, pm_MemoryMB s, pm_DiskReadRate s,
     pm_DiskWriteRate s, pm_DiskReadPerc s, pm_DiskWritePerc s, pm_NetSentRate s,
     pm_NetRecvRate s]"

definition series :: "heap \<Rightarrow> addr \<Rightarrow> val list list" where
  "series h p = map (contents h) (pm_fields (structs h p))"

definition point_vals :: "point \<Rightarrow> val list" where
  "point_vals pt = [TimeV (p_timestamp pt), F64 (p_cpu pt), F64 (p_memory pt),
     F64 (p_diskReadRate pt), F64 (p_diskWriteRate pt), F64 (p_diskReadPerc pt),
     F64 (p_diskWritePerc pt), F64 (p_netSentRate pt), F64 (p_netRecvRate pt)]"

section \<open>The operating system, as \<^verbatim>\<open>gopsutil\<close>, \<^verbatim>\<open>context\<close> and \<^verbatim>\<open>time\<close> show it\<close>

text \<open>
  What the calls on one \<^verbatim>\<open>*process.Process\<close> return during one read of it. \<open>None\<close> is
  a call that returned an error; the code drops these errors. \<open>rd_now\<close> is the
  \<^verbatim>\<open>time.Now()\<close> of \<^verbatim>\<open>getDetailedProcessInfo\<close>.
\<close>

record proc_read =
  rd_Name :: "string option"
  rd_CPUPercent :: "real option"
  rd_MemoryPercent :: "real option"
  rd_MemoryInfo :: "uint64 option"
  rd_CreateTime :: "int option"
  rd_IOCounters :: "(uint64 \<times> uint64) option"
  rd_now :: Time

record VirtualMemoryStat =
  vm_Total :: uint64
  vm_Used :: uint64
  vm_UsedPercent :: real

text \<open>
  What one cycle observes. The calls of the two loops of \<^verbatim>\<open>updateProcessMetrics\<close> are
  indexed by the position the loop has reached: \<open>ctx_Done i\<close> says whether the context
  is done when the first loop reaches index \<open>i\<close>, \<open>process_NewProcess i\<close> is the error
  of \<^verbatim>\<open>process.NewProcess\<close> there (\<open>None\<close> for success), \<open>basic_read i\<close> what the
  process answers there; \<open>detailed_read j\<close> and \<open>series_now j\<close> are the answers and the
  clock at position \<open>j\<close> of the second loop.
\<close>

record os =
  cpu_Percent :: "error + real list"
  mem_VirtualMemory :: "error + VirtualMemoryStat"
  sys_now :: Time
  process_Pids :: "error + int32 list"
  ctx_Done :: "nat \<Rightarrow> bool"
  ctx_Err :: error
  process_NewProcess :: "nat \<Rightarrow> error option"
  basic_read :: "nat \<Rightarrow> proc_read"
  detailed_read :: "nat \<Rightarrow> proc_read"
  series_now :: "nat \<Rightarrow> Time"

text \<open>\<^verbatim>\<open>t.Sub(u)\<close> saturates at the ends of \<^verbatim>\<open>int64\<close>; \<^verbatim>\<open>d.Seconds()\<close>.\<close>

definition time_Sub :: "Time \<Rightarrow> Time \<Rightarrow> int" where
  "time_Sub t u = max (- (2 ^ 63)) (min (2 ^ 63 - 1) (t - u))"

definition Seconds :: "int \<Rightarrow> real" where
  "Seconds d = real_of_int d / 1000000000"

text \<open>Go's integer division truncates towards zero.\<close>

definition quot :: "int \<Rightarrow> int \<Rightarrow> int" where
  "quot a b = sgn a * sgn b * (\<bar>a\<bar> div \<bar>b\<bar>)"

text \<open>\<^verbatim>\<open>time.Unix(sec, 0)\<close> on the nanosecond clock.\<close>

definition time_Unix :: "int \<Rightarrow> Time" where
  "time_Unix sec = sec * 1000000000"

section \<open>monitor.go: the registry\<close>

datatype SortBy = SortByPID | SortByName | SortByCPU | SortByMemory | SortByOther int

record ProcessIOCounters =
  io_ReadBytes :: uint64
  io_WriteBytes :: uint64
  io_Timestamp :: Time

text \<open>A \<^verbatim>\<open>*process.Process\<close> handle; the model keeps its \<^verbatim>\<open>Pid\<close>.\<close>

datatype Process = Process (Pid: int32)

text \<open>\<^verbatim>\<open>lastNetStats\<close> is initialised and never read or written again; it is left out.\<close>

record Monitor =
  processes :: "ProcessInfo list"
  systemMetrics :: SystemMetrics
  processMetrics :: "int32 \<rightharpoonup> addr"
  sortBy :: SortBy
  sortDesc :: bool
  metricsCapacity :: nat
  lastProcessStats :: "int32 \<rightharpoonup> Process"
  lastProcessIO :: "int32 \<rightharpoonup> ProcessIOCounters"
  systemIOTotal :: real

definition zero_SystemMetrics :: SystemMetrics where
  "zero_SystemMetrics = \<lparr>sm_CPUPercent = 0, sm_MemoryPercent = 0, sm_TotalMemoryMB = 0,
     sm_UsedMemoryMB = 0, sm_Timestamp = 0\<rparr>"

definition NewMonitor :: Monitor where
  "NewMonitor =
     \<lparr>processes = [], systemMetrics = zero_SystemMetrics, processMetrics = Map.empty,
      sortBy = SortByCPU, sortDesc = True, metricsCapacity = 60,
      lastProcessStats = Map.empty, lastProcessIO = Map.empty, systemIOTotal = 0\<rparr>"

definition GetProcesses :: "Monitor \<Rightarrow> ProcessInfo list" where
  "GetProcesses m = processes m"

definition GetSystemMetrics :: "Monitor \<Rightarrow> SystemMetrics" where
  "GetSystemMetrics m = systemMetrics m"

text \<open>
  \<^verbatim>\<open>GetProcessMetrics\<close> returns a pointer to a new object whose slices are
  \<^verbatim>\<open>append([]T(nil), xs...)\<close>, or nil (\<open>None\<close>).
\<close>

definition GetProcessMetrics :: "runtime \<Rightarrow> int32 \<Rightarrow> Monitor \<Rightarrow> heap \<Rightarrow> addr option \<times> heap" where
  "GetProcessMetrics rt pid m h0 =
     (case processMetrics m pid of
        None \<Rightarrow> (None, h0)
      | Some p \<Rightarrow>
         (let metrics = structs h0 p;
              (ts, h1) = go_append rt (TimeV 0) nil_slice (contents h0 (pm_Timestamps metrics)) h0;
              (cp, h2) = go_append rt (F64 0) nil_slice (contents h1 (pm_CPUPercent metrics)) h1;
              (mm, h3) = go_append rt (F64 0) nil_slice (contents h2 (pm_MemoryMB metrics)) h2;
              (rr, h4) = go_append rt (F64 0) nil_slice (contents h3 (pm_DiskReadRate metrics)) h3;
              (wr, h5) = go_append rt (F64 0) nil_slice (contents h4 (pm_DiskWriteRate metrics)) h4;
              (rp, h6) = go_append rt (F64 0) nil_slice (contents h5 (pm_DiskReadPerc metrics)) h5;
              (wp, h7) = go_append rt (F64 0) nil_slice (contents h6 (pm_DiskWritePerc metrics)) h6;
              (ns, h8) = go_append rt (F64 0) nil_slice (contents h7 (pm_NetSentRate metrics)) h7;
              (nr, h9) = go_append rt (F64 0) nil_slice (contents h8 (pm_NetRecvRate metrics)) h8;
              metricsCopy = nstructs h9
          in (Some metricsCopy,
              h9\<lparr>structs := (structs h9)(metricsCopy :=
                   \<lparr>pm_Timestamps = ts, pm_CPUPercent = cp, pm_MemoryMB = mm,
                    pm_DiskReadRate = rr, pm_DiskWriteRate = wr, pm_DiskReadPerc = rp,
                    pm_DiskWritePerc = wp, pm_NetSentRate = ns, pm_NetRecvRate = nr\<rparr>),
                 nstructs := Suc metricsCopy\<rparr>)))"

definition EnsureProcessMetrics :: "int32 \<Rightarrow> Monitor \<Rightarrow> heap \<Rightarrow> Monitor \<times> heap" where
  "EnsureProcessMetrics pid m h =
     (case processMetrics m pid of
        None \<Rightarrow>
          (let (p, h') = NewProcessMetrics (metricsCapacity m) h
           in (m\<lparr>processMetrics := (processMetrics m)(pid \<mapsto> p)\<rparr>, h'))
      | Some _ \<Rightarrow> (m, h))"

definition SetSorting :: "SortBy \<Rightarrow> bool \<Rightarrow> Monitor \<Rightarrow> Monitor" where
  "SetSorting sort_by desc m = m\<lparr>sortBy := sort_by, sortDesc := desc\<rparr>"

definition updateSystemMetrics :: "os \<Rightarrow> Monitor \<Rightarrow> error option \<times> Monitor" where
  "updateSystemMetrics env m =
     (case cpu_Percent env of
        Inl err \<Rightarrow> (Some err, m)
      | Inr cpuPercent \<Rightarrow>
         (let cpuValue = (case cpuPercent of [] \<Rightarrow> 0 | x # _ \<Rightarrow> x) in
          case mem_VirtualMemory env of
            Inl err \<Rightarrow> (Some err, m)
          | Inr memStat \<Rightarrow>
              (None, m\<lparr>systemMetrics :=
                 \<lparr>sm_CPUPercent = cpuValue,
                  sm_MemoryPercent = vm_UsedPercent memStat,
                  sm_TotalMemoryMB = real (unat (vm_Total memStat)) / 1024 / 1024,
                  sm_UsedMemoryMB = real (unat (vm_Used memStat)) / 1024 / 1024,
                  sm_Timestamp = sys_now env\<rparr>\<rparr>)))"

definition calculateSystemIOTotal :: real where
  "calculateSystemIOTotal = 100 * 1024"

definition zero_ProcessInfo :: ProcessInfo where
  "zero_ProcessInfo =
     \<lparr>PID = 0, Name = [], CPUPercent = 0, MemoryMB = 0, MemoryPerc = 0, CreateTime = 0,
      DiskReadKB = 0, DiskWriteKB = 0, DiskReadRate = 0, DiskWriteRate = 0,
      DiskReadPerc = 0, DiskWritePerc = 0, NetSentKB = 0, NetRecvKB = 0,
      NetSentRate = 0, NetRecvRate = 0\<rparr>"

definition getBasicProcessInfo :: "Process \<Rightarrow> proc_read \<Rightarrow> error + ProcessInfo" where
  "getBasicProcessInfo proc rd =
     (let info = zero_ProcessInfo\<lparr>PID := Pid proc\<rparr>;
          info = (case rd_Name rd of Some name \<Rightarrow> info\<lparr>Name := name\<rparr> | None \<Rightarrow> info);
          info = (case rd_CPUPercent rd of
                    Some cpuPercent \<Rightarrow> info\<lparr>CPUPercent := cpuPercent\<rparr> | None \<Rightarrow> info);
          info = (case rd_MemoryPercent rd of
                    Some memPercent \<Rightarrow> info\<lparr>MemoryPerc := memPercent\<rparr> | None \<Rightarrow> info);
          info = (case rd_MemoryInfo rd of
                    Some rss \<Rightarrow> info\<lparr>MemoryMB := real (unat rss) / 1024 / 1024\<rparr>
                  | None \<Rightarrow> info)
      in Inr info)"

text \<open>The rate block of \<^verbatim>\<open>getDetailedProcessInfo\<close> (the body of \<^verbatim>\<open>if exists\<close>).\<close>

definition diskRates ::
  "real \<Rightarrow> Time \<Rightarrow> uint64 \<times> uint64 \<Rightarrow> ProcessIOCounters \<Rightarrow> ProcessInfo \<Rightarrow> ProcessInfo" where
  "diskRates ioTotal now ioCounters lastIO info =
     (let timeDiff = Seconds (time_Sub now (io_Timestamp lastIO)) in
      if timeDiff > 0 then
        (let readDiff = real (unat (fst ioCounters - io_ReadBytes lastIO));
             writeDiff = real (unat (snd ioCounters - io_WriteBytes lastIO));
             info = info\<lparr>DiskReadRate := (readDiff / 1024) / timeDiff\<rparr>;
             info = info\<lparr>DiskWriteRate := (writeDiff / 1024) / timeDiff\<rparr>
         in if ioTotal > 0 then
              info\<lparr>DiskReadPerc := (DiskReadRate info / ioTotal) * 100,
                   DiskWritePerc := (DiskWriteRate info / ioTotal) * 100\<rparr>
            else
              info\<lparr>DiskReadPerc := min (DiskReadRate info / 1024) 100,
                   DiskWritePerc := min (DiskWriteRate info / 1024) 100\<rparr>)
      else info)"

definition getDetailedProcessInfo ::
  "Process \<Rightarrow> proc_read \<Rightarrow> Monitor \<Rightarrow> (error + ProcessInfo) \<times> Monitor" where
  "getDetailedProcessInfo proc rd m =
     (case getBasicProcessInfo proc rd of
        Inl err \<Rightarrow> (Inl err, m)
      | Inr info \<Rightarrow>
         (let now = rd_now rd;
              ioTotal = systemIOTotal m;
              info = (case rd_CreateTime rd of
                        Some createTime \<Rightarrow> info\<lparr>CreateTime := time_Unix (quot createTime 1000)\<rparr>
                      | None \<Rightarrow> info);
              (info, m) =
                (case rd_IOCounters rd of
                   None \<Rightarrow> (info, m)
                 | Some ioCounters \<Rightarrow>
                    (let info = info\<lparr>DiskReadKB := real (unat (fst ioCounters)) / 1024\<rparr>;
                         info = info\<lparr>DiskWriteKB := real (unat (snd ioCounters)) / 1024\<rparr>;
                         info = (case lastProcessIO m (Pid proc) of
                                   Some lastIO \<Rightarrow> diskRates ioTotal now ioCounters lastIO info
                                 | None \<Rightarrow> info)
                     in (info,
                         m\<lparr>lastProcessIO := (lastProcessIO m)(Pid proc \<mapsto>
                              \<lparr>io_ReadBytes = fst ioCounters, io_WriteBytes = snd ioCounters,
                               io_Timestamp = now\<rparr>)\<rparr>)));
              info = info\<lparr>NetSentKB := 0, NetRecvKB := 0, NetSentRate := 0, NetRecvRate := 0\<rparr>
          in (Inr info, m)))"

definition sortProcessesByResourceUsage :: "runtime \<Rightarrow> ProcessInfo list \<Rightarrow> ProcessInfo list" where
  "sortProcessesByResourceUsage rt procs =
     sort_Slice rt
       (\<lambda>pi pj. let scoreI = CPUPercent pi + MemoryPerc pi;
                    scoreJ = CPUPercent pj + MemoryPerc pj
                in scoreI > scoreJ)
       procs"

definition updateProcessTimeSeriesMetrics ::
  "runtime \<Rightarrow> ProcessInfo \<Rightarrow> Time \<Rightarrow> Monitor \<Rightarrow> heap \<Rightarrow> Monitor \<times> heap" where
  "updateProcessTimeSeriesMetrics rt processInfo tnow m h =
     (let pid = PID processInfo;
          (p, m, h) =
            (case processMetrics m pid of
               None \<Rightarrow>
                 (let (p, h') = NewProcessMetrics (metricsCapacity m) h
                  in (p, m\<lparr>processMetrics := (processMetrics m)(pid \<mapsto> p)\<rparr>, h'))
             | Some p \<Rightarrow> (p, m, h))
      in (m, AddMetric rt p
               \<lparr>p_timestamp = tnow, p_cpu = CPUPercent processInfo,
                p_memory = MemoryMB processInfo, p_diskReadRate = DiskReadRate processInfo,
                p_diskWriteRate = DiskWriteRate processInfo,
                p_diskReadPerc = DiskReadPerc processInfo,
                p_diskWritePerc = DiskWritePerc processInfo,
                p_netSentRate = NetSentRate processInfo,
                p_netRecvRate = NetRecvRate processInfo\<rparr> h))"

definition sortProcesses :: "runtime \<Rightarrow> Monitor \<Rightarrow> Monitor" where
  "sortProcesses rt m =
     m\<lparr>processes :=
        sort_Slice rt
          (\<lambda>pi pj.
             let result =
               (case sortBy m of
                  SortByPID \<Rightarrow> sint (PID pi) < sint (PID pj)
                | SortByName \<Rightarrow> Name pi < Name pj
                | SortByCPU \<Rightarrow> CPUPercent pi < CPUPercent pj
                | SortByMemory \<Rightarrow> MemoryMB pi < MemoryMB pj
                | SortByOther _ \<Rightarrow> sint (PID pi) < sint (PID pj))
             in if sortDesc m then \<not> result else result)
          (processes m)\<rparr>"

text \<open>
  \<^verbatim>\<open>GetCurrentProcessData\<close>: \<open>newproc\<close> is the error of \<^verbatim>\<open>process.NewProcess(pid)\<close>,
  \<open>rd\<close> what the process answers, \<open>tnow\<close> the clock of the time-series update.
\<close>

definition GetCurrentProcessData ::
  "runtime \<Rightarrow> error option \<Rightarrow> proc_read \<Rightarrow> Time \<Rightarrow> int32 \<Rightarrow> Monitor \<Rightarrow> heap \<Rightarrow>
     (error + ProcessInfo) \<times> Monitor \<times> heap" where
  "GetCurrentProcessData rt newproc rd tnow pid m h =
     (let (m, h) = EnsureProcessMetrics pid m h in
      case newproc of
        Some err \<Rightarrow> (Inl err, m, h)
      | None \<Rightarrow>
         (case getDetailedProcessInfo (Process pid) rd m of
            (Inl err, m) \<Rightarrow> (Inl err, m, h)
          | (Inr processInfo, m) \<Rightarrow>
             (let (m, h) = updateProcessTimeSeriesMetrics rt processInfo tnow m h
              in (Inr processInfo, m, h))))"

text \<open>
  The first loop of \<^verbatim>\<open>updateProcessMetrics\<close>, from index \<open>i\<close>, over the identifiers that
  are left; it builds \<^verbatim>\<open>newProcessStats\<close> and \<^verbatim>\<open>allProcesses\<close>. The pause every fifty
  identifiers changes no state.
\<close>

fun firstPass ::
  "os \<Rightarrow> Monitor \<Rightarrow> nat \<Rightarrow> int32 list \<Rightarrow> (int32 \<rightharpoonup> Process) \<Rightarrow> ProcessInfo list \<Rightarrow>
     error + ((int32 \<rightharpoonup> Process) \<times> ProcessInfo list)" where
  "firstPass env m i [] newProcessStats allProcesses = Inr (newProcessStats, allProcesses)"
| "firstPass env m i (pid # pids) newProcessStats allProcesses =
     (if ctx_Done env i then Inl (ctx_Err env)
      else
        (case (case lastProcessStats m pid of
                 Some existingProc \<Rightarrow> Inr existingProc
               | None \<Rightarrow>
                  (case process_NewProcess env i of
                     Some err \<Rightarrow> Inl err
                   | None \<Rightarrow> Inr (Process pid))) of
           Inl err \<Rightarrow> firstPass env m (i + 1) pids newProcessStats allProcesses
         | Inr proc \<Rightarrow>
            (let newProcessStats = newProcessStats(pid \<mapsto> proc) in
             case getBasicProcessInfo proc (basic_read env i) of
               Inl err \<Rightarrow> firstPass env m (i + 1) pids newProcessStats allProcesses
             | Inr processInfo \<Rightarrow>
                 firstPass env m (i + 1) pids newProcessStats (allProcesses @ [processInfo]))))"

text \<open>The second loop, from position \<open>j\<close>, over the prioritised entries that are left.\<close>

fun secondPass ::
  "runtime \<Rightarrow> os \<Rightarrow> (int32 \<rightharpoonup> Process) \<Rightarrow> nat \<Rightarrow> ProcessInfo list \<Rightarrow> ProcessInfo list \<Rightarrow>
     Monitor \<Rightarrow> heap \<Rightarrow> ProcessInfo list \<times> Monitor \<times> heap" where
  "secondPass rt env newProcessStats j [] procs m h = (procs, m, h)"
| "secondPass rt env newProcessStats j (basicInfo # rest) procs m h =
     (case newProcessStats (PID basicInfo) of
        None \<Rightarrow> secondPass rt env newProcessStats (j + 1) rest procs m h
      | Some proc \<Rightarrow>
         (case getDetailedProcessInfo proc (detailed_read env j) m of
            (Inl err, m) \<Rightarrow> secondPass rt env newProcessStats (j + 1) rest procs m h
          | (Inr processInfo, m) \<Rightarrow>
             (let (m, h) = updateProcessTimeSeriesMetrics rt processInfo (series_now env j) m h
              in secondPass rt env newProcessStats (j + 1) rest (procs @ [processInfo]) m h)))"

text \<open>Lines 247 to 250: keep the first \<open>maxProcesses\<close> entries.\<close>

definition keepTop :: "nat \<Rightarrow> ProcessInfo list \<Rightarrow> ProcessInfo list" where
  "keepTop maxProcesses allProcesses =
     (if length allProcesses > maxProcesses then take maxProcesses allProcesses
      else allProcesses)"

definition updateProcessMetrics ::
  "runtime \<Rightarrow> os \<Rightarrow> Monitor \<Rightarrow> heap \<Rightarrow> error option \<times> Monitor \<times> heap" where
  "updateProcessMetrics rt env m h =
     (case process_Pids env of
        Inl err \<Rightarrow> (Some err, m, h)
      | Inr pids \<Rightarrow>
         (let m = m\<lparr>systemIOTotal := calculateSystemIOTotal\<rparr> in
          case firstPass env m 0 pids Map.empty [] of
            Inl err \<Rightarrow> (Some err, m, h)
          | Inr (newProcessStats, allProcesses) \<Rightarrow>
             (let allProcesses = sortProcessesByResourceUsage rt allProcesses;
                  maxProcesses = 150;
                  allProcesses = keepTop maxProcesses allProcesses;
                  (procs, m, h) = secondPass rt env newProcessStats 0 allProcesses [] m h;
                  m = m\<lparr>processes := procs, lastProcessStats := newProcessStats\<rparr>
              in (None, sortProcesses rt m, h))))"

definition UpdateMetrics ::
  "runtime \<Rightarrow> os \<Rightarrow> Monitor \<Rightarrow> heap \<Rightarrow> error option \<times> Monitor \<times> heap" where
  "UpdateMetrics rt env m h =
     (case updateSystemMetrics env m of
        (Some err, m) \<Rightarrow> (Some (Wrapped ''failed to update system metrics'' err), m, h)
      | (None, m) \<Rightarrow>
         (case updateProcessMetrics rt env m h of
            (Some err, m, h) \<Rightarrow> (Some (Wrapped ''failed to update process metrics'' err), m, h)
          | (None, m, h) \<Rightarrow> (None, m, h)))"

text \<open>\<^verbatim>\<open>currentPIDs\<close> of \<^verbatim>\<open>CleanupOldMetrics\<close>: a map to \<^verbatim>\<open>bool\<close> whose missing keys read
  as \<^verbatim>\<open>false\<close>.\<close>

definition currentPIDs :: "ProcessInfo list \<Rightarrow> int32 \<Rightarrow> bool" where
  "currentPIDs procs = foldl (\<lambda>c proc. c(PID proc := True)) (\<lambda>_. False) procs"

definition CleanupOldMetrics :: "Monitor \<Rightarrow> Monitor" where
  "CleanupOldMetrics m =
     m\<lparr>processMetrics :=
        (\<lambda>pid. if \<not> currentPIDs (processes m) pid then None else processMetrics m pid)\<rparr>"

section \<open>A reference runtime and the contract of \<^verbatim>\<open>sort.Slice\<close>\<close>

text \<open>
  \<^verbatim>\<open>sort.Slice\<close> permutes the slice; when \<open>lt\<close> is a strict weak ordering no element
  is left behind a greater one. Nothing is promised about elements that compare equal.
\<close>

definition strict_weak :: "('a \<Rightarrow> 'a \<Rightarrow> bool) \<Rightarrow> bool" where
  "strict_weak lt \<longleftrightarrow>
     (\<forall>a. \<not> lt a a) \<and> (\<forall>a b c. lt a b \<and> lt b c \<longrightarrow> lt a c) \<and>
     (\<forall>a b c. \<not> lt a b \<and> \<not> lt b c \<longrightarrow> \<not> lt a c)"

definition sort_contract :: "runtime \<Rightarrow> bool" where
  "sort_contract rt \<longleftrightarrow>
     (\<forall>lt xs. mset (sort_Slice rt lt xs) = mset xs) \<and>
     (\<forall>lt xs. strict_weak lt \<longrightarrow> sorted_wrt (\<lambda>a b. \<not> lt b a) (sort_Slice rt lt xs))"

text \<open>One runtime that meets the contract: capacities double, the sort is by insertion.
  It instantiates the theorems at concrete inputs.\<close>

fun insert_less :: "('a \<Rightarrow> 'a \<Rightarrow> bool) \<Rightarrow> 'a \<Rightarrow> 'a list \<Rightarrow> 'a list" where
  "insert_less lt x [] = [x]"
| "insert_less lt x (y # ys) = (if lt x y then x # y # ys else y # insert_less lt x ys)"

definition insertion_sort :: "('a \<Rightarrow> 'a \<Rightarrow> bool) \<Rightarrow> 'a list \<Rightarrow> 'a list" where
  "insertion_sort lt xs = foldl (\<lambda>acc x. insert_less lt x acc) [] xs"

definition double_cap :: "nat \<Rightarrow> nat \<Rightarrow> nat" where
  "double_cap oldCap newLen = (if newLen > oldCap + oldCap then newLen else oldCap + oldCap)"

definition ref_runtime :: runtime where
  "ref_runtime = \<lparr>growslice = double_cap, sort_Slice = insertion_sort\<rparr>"

section \<open>Well-formed slices and objects\<close>

text \<open>A slice is well formed in a heap when its array is allocated and its window
  \<open>off .. off + cap\<close> lies inside the array.\<close>

definition slice_ok :: "heap \<Rightarrow> slice \<Rightarrow> bool" where
  "slice_ok h s \<longleftrightarrow>
     ptr s < narrays h \<and> len s \<le> cap s \<and> off s + cap s \<le> length (arrays h (ptr s))"

text \<open>A \<^verbatim>\<open>ProcessMetrics\<close> object is well formed when its nine slices are, over nine
  different arrays.\<close>

definition pm_ok :: "heap \<Rightarrow> ProcessMetrics \<Rightarrow> bool" where
  "pm_ok h s \<longleftrightarrow> list_all (slice_ok h) (pm_fields s) \<and> distinct (map ptr (pm_fields s))"

text \<open>
  The nine \<^verbatim>\<open>append\<close> statements of \<^verbatim>\<open>AddMetric\<close> as one loop over
  (zero value, slice, appended value), for the proofs: \<open>AddMetric_unfold\<close> shows that
  \<open>AddMetric\<close> is this loop.
\<close>

fun append_each :: "runtime \<Rightarrow> (val \<times> slice \<times> val) list \<Rightarrow> heap \<Rightarrow> slice list \<times> heap" where
  "append_each rt [] h = ([], h)"
| "append_each rt ((z, s, v) # r) h =
     (let (s', h') = go_append rt z s [v] h; (ss, h'') = append_each rt r h' in (s' # ss, h''))"

definition srcs :: "(val \<times> slice \<times> val) list \<Rightarrow> slice list" where
  "srcs l = map (\<lambda>x. fst (snd x)) l"

definition triples :: "ProcessMetrics \<Rightarrow> point \<Rightarrow> (val \<times> slice \<times> val) list" where
  "triples s pt =
     [(TimeV 0, pm_Timestamps s, TimeV (p_timestamp pt)),
      (F64 0, pm_CPUPercent s, F64 (p_cpu pt)),
      (F64 0, pm_MemoryMB s, F64 (p_memory pt)),
      (F64 0, pm_DiskReadRate s, F64 (p_diskReadRate pt)),
      (F64 0, pm_DiskWriteRate s, F64 (p_diskWriteRate pt)),
      (F64 0, pm_DiskReadPerc s, F64 (p_diskReadPerc pt)),
      (F64 0, pm_DiskWritePerc s, F64 (p_diskWritePerc pt)),
      (F64 0, pm_NetSentRate s, F64 (p_netSentRate pt)),
      (F64 0, pm_NetRecvRate s, F64 (p_netRecvRate pt))]"

definition of_fields :: "slice list \<Rightarrow> ProcessMetrics" where
  "of_fields ss = \<lparr>pm_Timestamps = ss ! 0, pm_CPUPercent = ss ! 1, pm_MemoryMB = ss ! 2,
     pm_DiskReadRate = ss ! 3, pm_DiskWriteRate = ss ! 4, pm_DiskReadPerc = ss ! 5,
     pm_DiskWritePerc = ss ! 6, pm_NetSentRate = ss ! 7, pm_NetRecvRate = ss ! 8\<rparr>"

text \<open>What one step of the loop achieves for its slice.\<close>

definition appended :: "heap \<Rightarrow> heap \<Rightarrow> val \<times> slice \<times> val \<Rightarrow> slice \<Rightarrow> bool" where
  "appended h h' x s' \<longleftrightarrow>
     slice_ok h' s' \<and> contents h' s' = contents h (fst (snd x)) @ [snd (snd x)] \<and>
     (ptr s' = ptr (fst (snd x)) \<or> narrays h \<le> ptr s')"

text \<open>The nine sequences that hold exactly the points \<open>pts\<close>, in their order; and
  \<^verbatim>\<open>AddMetric\<close> called once for each point of a list.\<close>

definition columns :: "point list \<Rightarrow> val list list" where
  "columns pts = map (\<lambda>i. map (\<lambda>pt. point_vals pt ! i) pts) [0..<9]"

definition add_points :: "runtime \<Rightarrow> addr \<Rightarrow> point list \<Rightarrow> heap \<Rightarrow> heap" where
  "add_points rt p pts h = foldl (\<lambda>h pt. AddMetric rt p pt h) h pts"

text \<open>A process reading used at concrete inputs.\<close>

definition info7 :: ProcessInfo where
  "info7 = zero_ProcessInfo\<lparr>PID := 7, CPUPercent := 12\<rparr>"

section \<open>Auxiliary definitions for the registry\<close>

text \<open>
  The nine \<^verbatim>\<open>append([]T(nil), xs...)\<close> of \<^verbatim>\<open>GetProcessMetrics\<close> as one loop over
  (zero value, source slice), for the proofs: \<open>GetProcessMetrics_unfold\<close> shows that
  \<open>GetProcessMetrics\<close> is this loop.
\<close>

fun copy_each :: "runtime \<Rightarrow> (val \<times> slice) list \<Rightarrow> heap \<Rightarrow> slice list \<times> heap" where
  "copy_each rt [] h = ([], h)"
| "copy_each rt ((z, s) # r) h =
     (let (s', h') = go_append rt z nil_slice (contents h s) h;
          (ss, h'') = copy_each rt r h'
      in (s' # ss, h''))"

text \<open>The zero values of the nine element types.\<close>

definition zeros :: "val list" where
  "zeros = [TimeV 0, F64 0, F64 0, F64 0, F64 0, F64 0, F64 0, F64 0, F64 0]"

text \<open>
  Every tracked object and every array it uses is allocated. \<open>NewMonitor\<close> satisfies this
  with any heap and every operation of the registry keeps it (\<open>monitor_ok_NewMonitor\<close>,
  \<open>EnsureProcessMetrics_monitor_ok\<close>, \<open>update_monitor_ok\<close>,
  \<open>CleanupOldMetrics_monitor_ok\<close>, \<open>GetProcessMetrics_detached\<close>).
\<close>

definition monitor_ok :: "Monitor \<Rightarrow> heap \<Rightarrow> bool" where
  "monitor_ok m h \<longleftrightarrow>
     (\<forall>pid p. processMetrics m pid = Some p \<longrightarrow>
        p < nstructs h \<and> (\<forall>t \<in> set (pm_fields (structs h p)). ptr t < narrays h))"

text \<open>
  The object \<open>q\<close> is not in the registry, and each of its slices is empty or lies over an
  allocated array that no tracked object uses.
\<close>

definition detached :: "Monitor \<Rightarrow> heap \<Rightarrow> addr \<Rightarrow> bool" where
  "detached m h q \<longleftrightarrow>
     q < nstructs h \<and> (\<forall>pid. processMetrics m pid \<noteq> Some q) \<and>
     (\<forall>t \<in> set (pm_fields (structs h q)).
        len t = 0 \<or>
        (ptr t < narrays h \<and>
         (\<forall>pid p. processMetrics m pid = Some p \<longrightarrow> ptr t \<notin> ptr ` set (pm_fields (structs h p)))))"

text \<open>A sequence of time-series updates, each the append of one point for some process.\<close>

fun updates :: "runtime \<Rightarrow> (ProcessInfo \<times> Time) list \<Rightarrow> Monitor \<Rightarrow> heap \<Rightarrow> Monitor \<times> heap" where
  "updates rt [] m h = (m, h)"
| "updates rt ((processInfo, tnow) # r) m h =
     (case updateProcessTimeSeriesMetrics rt processInfo tnow m h of (m', h') \<Rightarrow> updates rt r m' h')"

text \<open>A slice made by a copy between two heaps: empty, or over an array allocated in between.\<close>

definition copied :: "heap \<Rightarrow> heap \<Rightarrow> slice \<Rightarrow> bool" where
  "copied h h' t \<longleftrightarrow> len t = 0 \<or> (narrays h \<le> ptr t \<and> ptr t < narrays h')"

text \<open>A slice after \<^verbatim>\<open>append\<close>: over the array of one of the old slices, or over an
  array allocated in between.\<close>

definition moved :: "heap \<Rightarrow> heap \<Rightarrow> slice list \<Rightarrow> slice \<Rightarrow> bool" where
  "moved h h' olds t \<longleftrightarrow> ptr t \<in> ptr ` set olds \<or> (narrays h \<le> ptr t \<and> ptr t < narrays h')"

text \<open>The point that \<^verbatim>\<open>updateProcessTimeSeriesMetrics\<close> appends for a process reading.\<close>

definition info_point :: "ProcessInfo \<Rightarrow> Time \<Rightarrow> point" where
  "info_point processInfo tnow =
     \<lparr>p_timestamp = tnow, p_cpu = CPUPercent processInfo,
      p_memory = MemoryMB processInfo, p_diskReadRate = DiskReadRate processInfo,
      p_diskWriteRate = DiskWriteRate processInfo,
      p_diskReadPerc = DiskReadPerc processInfo,
      p_diskWritePerc = DiskWritePerc processInfo,
      p_netSentRate = NetSentRate processInfo,
      p_netRecvRate = NetRecvRate processInfo\<rparr>"

text \<open>\<^verbatim>\<open>timeDiff\<close> of \<^verbatim>\<open>getDetailedProcessInfo\<close>: \<^verbatim>\<open>now.Sub(lastIO.Timestamp).Seconds()\<close>.\<close>

definition deltaSeconds :: "Time \<Rightarrow> ProcessIOCounters \<Rightarrow> real" where
  "deltaSeconds now lastIO = Seconds (time_Sub now (io_Timestamp lastIO))"

text \<open>The four disk fields of the result of a detailed read.\<close>

definition disk_fields :: "ProcessInfo \<Rightarrow> real \<times> real \<times> real \<times> real" where
  "disk_fields info = (DiskReadRate info, DiskWriteRate info, DiskReadPerc info, DiskWritePerc info)"

text \<open>Concrete inputs: a process that answers every call, with the given I/O counters
  and clock; a registry with one cache entry for process 1 and the given I/O budget.\<close>

definition rd_io :: "uint64 \<Rightarrow> uint64 \<Rightarrow> Time \<Rightarrow> proc_read" where
  "rd_io readBytes writeBytes now =
     \<lparr>rd_Name = Some ''init'', rd_CPUPercent = Some 1, rd_MemoryPercent = Some 1,
      rd_MemoryInfo = Some 1048576, rd_CreateTime = Some 1000,
      rd_IOCounters = Some (readBytes, writeBytes), rd_now = now\<rparr>"

definition with_lastIO :: "real \<Rightarrow> uint64 \<Rightarrow> uint64 \<Rightarrow> Time \<Rightarrow> Monitor" where
  "with_lastIO budget readBytes writeBytes t =
     NewMonitor\<lparr>lastProcessIO := [1 \<mapsto> \<lparr>io_ReadBytes = readBytes, io_WriteBytes = writeBytes,
                                            io_Timestamp = t\<rparr>],
                systemIOTotal := budget\<rparr>"

text \<open>Concrete inputs for one cycle: a process that answers every call with the given
  CPU percentage; an operating system with the identifiers 1 and 2, whose CPU percentages
  are 10 and 90, where no call fails and the context is never done; the same with a
  failing \<^verbatim>\<open>cpu.Percent\<close>.\<close>

definition rd_cpu :: "real \<Rightarrow> proc_read" where
  "rd_cpu c =
     \<lparr>rd_Name = Some ''proc'', rd_CPUPercent = Some c, rd_MemoryPercent = Some 0,
      rd_MemoryInfo = Some 1048576, rd_CreateTime = Some 1000,
      rd_IOCounters = Some (0, 0), rd_now = 1000000000\<rparr>"

definition env2 :: os where
  "env2 =
     \<lparr>cpu_Percent = Inr [50], 
      mem_VirtualMemory = Inr \<lparr>vm_Total = 2097152, vm_Used = 1048576, vm_UsedPercent = 50\<rparr>,
      sys_now = 1000000000,
      process_Pids = Inr [1, 2],
      ctx_Done = (\<lambda>_. False), ctx_Err = Canceled,
      process_NewProcess = (\<lambda>_. None),
      basic_read = (\<lambda>i. if i = 0 then rd_cpu 10 else rd_cpu 90),
      detailed_read = (\<lambda>j. if j = 0 then rd_cpu 90 else rd_cpu 10),
      series_now = (\<lambda>_. 1000000000)\<rparr>"

text \<open>The priority score that \<^verbatim>\<open>sortProcessesByResourceUsage\<close> compares.\<close>

definition score :: "ProcessInfo \<Rightarrow> real" where
  "score p = CPUPercent p + MemoryPerc p"

text \<open>The result of a basic read that only reports a CPU percentage.\<close>

definition basic :: "int32 \<Rightarrow> real \<Rightarrow> ProcessInfo" where
  "basic pid c = zero_ProcessInfo\<lparr>PID := pid, CPUPercent := c\<rparr>"

definition env_fail :: os where
  "env_fail = env2\<lparr>cpu_Percent := Inl (OSError 1)\<rparr>"

section \<open>Lemmas on \<^verbatim>\<open>append\<close>, \<^verbatim>\<open>NewProcessMetrics\<close> and \<^verbatim>\<open>AddMetric\<close>\<close>

lemma contents_structs_update [simp]: "contents (h\<lparr>structs := f\<rparr>) s = contents h s"
  by (simp add: contents_def)

lemma slice_ok_structs_update [simp]: "slice_ok (h\<lparr>structs := f\<rparr>) s = slice_ok h s"
  by (simp add: slice_ok_def)

lemma go_append_structs:
  "go_append rt z s vs h = (s', h') \<Longrightarrow> structs h' = structs h \<and> nstructs h' = nstructs h"
  by (auto simp: go_append_def Let_def split: if_splits)

lemma go_append_narrays:
  "go_append rt z s vs h = (s', h') \<Longrightarrow> narrays h \<le> narrays h' \<and> (ptr s' = ptr s \<or> ptr s' = narrays h) "
  by (auto simp: go_append_def Let_def split: if_splits)

lemma go_append_ptr_bound:
  "go_append rt z s vs h = (s', h') \<Longrightarrow> ptr s < narrays h \<Longrightarrow> ptr s' < narrays h'"
  by (auto simp: go_append_def Let_def split: if_splits)

lemma go_append_arrays:
  "go_append rt z s vs h = (s', h') \<Longrightarrow> a \<noteq> ptr s \<Longrightarrow> a < narrays h \<Longrightarrow> arrays h' a = arrays h a"
  by (auto simp: go_append_def Let_def split: if_splits)

lemma go_append_frame:
  "go_append rt z s vs h = (s', h') \<Longrightarrow> ptr t \<noteq> ptr s \<Longrightarrow> slice_ok h t \<Longrightarrow>
     slice_ok h' t \<and> contents h' t = contents h t"
  by (auto simp: go_append_def Let_def slice_ok_def contents_def split: if_splits)

lemma inplace_contents:
  assumes "off s + cap s \<le> length arr" "len s + length vs \<le> cap s"
  shows "take (len s + length vs) (drop (off s)
           (take (off s + len s) arr @ vs @ drop (off s + (len s + length vs)) arr))
         = take (len s) (drop (off s) arr) @ vs"
proof -
  have l: "length (take (off s + len s) arr) = off s + len s"
    using assms by simp
  have "drop (off s) (take (off s + len s) arr @ vs @ drop (off s + (len s + length vs)) arr)
      = drop (off s) (take (off s + len s) arr) @ vs @ drop (off s + (len s + length vs)) arr"
    using l by simp
  also have "drop (off s) (take (off s + len s) arr) = take (len s) (drop (off s) arr)"
    by (simp add: drop_take)
  finally show ?thesis
    using assms by simp
qed

lemma inplace_length:
  assumes "off s + cap s \<le> length arr" "len s + length vs \<le> cap s"
  shows "length (take (off s + len s) arr @ vs @ drop (off s + (len s + length vs)) arr) = length arr"
  using assms by simp

lemma go_append_result:
  assumes "go_append rt z s vs h = (s', h')" "slice_ok h s"
  shows "slice_ok h' s' \<and> contents h' s' = contents h s @ vs \<and> len s' = len s + length vs"
proof (cases "len s + length vs \<le> cap s")
  case True
  then show ?thesis
    using assms inplace_contents [of s "arrays h (ptr s)" vs] inplace_length [of s "arrays h (ptr s)" vs]
    by (auto simp: go_append_def Let_def slice_ok_def contents_def simp del: append_assoc drop_append take_append)
next
  case False
  then show ?thesis
    using assms
    by (auto simp: go_append_def Let_def slice_ok_def contents_def)
qed


lemma srcs_simps [simp]: "srcs [] = []" "srcs ((z, s, v) # r) = s # srcs r"
  by (simp_all add: srcs_def)

lemma append_each_heap:
  "append_each rt l h = (ss, h') \<Longrightarrow>
     structs h' = structs h \<and> nstructs h' = nstructs h \<and> narrays h \<le> narrays h'"
proof (induction l arbitrary: h ss h')
  case Nil
  then show ?case by simp
next
  case (Cons x r)
  obtain z s v where x: "x = (z, s, v)" by (cases x)
  obtain s1 h1 where a: "go_append rt z s [v] h = (s1, h1)" by (cases "go_append rt z s [v] h")
  obtain ss2 h2 where b: "append_each rt r h1 = (ss2, h2)" by (cases "append_each rt r h1")
  from Cons.prems x a b have e: "h' = h2" by simp
  from go_append_structs [OF a] go_append_narrays [OF a] Cons.IH [OF b] e
  show ?case by simp
qed

lemma append_each_arrays:
  "append_each rt l h = (ss, h') \<Longrightarrow> a < narrays h \<Longrightarrow> a \<notin> ptr ` set (srcs l) \<Longrightarrow>
     arrays h' a = arrays h a"
proof (induction l arbitrary: h ss h')
  case Nil
  then show ?case by simp
next
  case (Cons x r)
  obtain z s v where x: "x = (z, s, v)" by (cases x)
  obtain s1 h1 where a: "go_append rt z s [v] h = (s1, h1)" by (cases "go_append rt z s [v] h")
  obtain ss2 h2 where b: "append_each rt r h1 = (ss2, h2)" by (cases "append_each rt r h1")
  from Cons.prems x a b have e: "h' = h2" by simp
  have n: "a \<noteq> ptr s" "a \<notin> ptr ` set (srcs r)" using Cons.prems(3) x by auto
  have "arrays h1 a = arrays h a" using go_append_arrays [OF a n(1) Cons.prems(2)] .
  moreover have "a < narrays h1" using go_append_narrays [OF a] Cons.prems(2) by simp
  then have "arrays h2 a = arrays h1 a" using Cons.IH [OF b _ n(2)] by simp
  ultimately show ?case using e by simp
qed

lemma slice_frame:
  "slice_ok h t \<Longrightarrow> arrays h' (ptr t) = arrays h (ptr t) \<Longrightarrow> narrays h \<le> narrays h' \<Longrightarrow>
     slice_ok h' t \<and> contents h' t = contents h t"
  by (simp add: slice_ok_def contents_def)

lemma append_each_frame:
  "append_each rt l h = (ss, h') \<Longrightarrow> slice_ok h t \<Longrightarrow> ptr t \<notin> ptr ` set (srcs l) \<Longrightarrow>
     slice_ok h' t \<and> contents h' t = contents h t"
  using append_each_arrays [of rt l h ss h' "ptr t"] append_each_heap [of rt l h ss h']
  by (intro slice_frame) (auto simp: slice_ok_def)

lemma append_each_result:
  "append_each rt l h = (ss, h') \<Longrightarrow> list_all (slice_ok h) (srcs l) \<Longrightarrow>
   distinct (map ptr (srcs l)) \<Longrightarrow>
     list_all2 (appended h h') l ss \<and> distinct (map ptr ss)"
proof (induction l arbitrary: h ss h')
  case Nil
  then show ?case by simp
next
  case (Cons x r)
  obtain z s v where x: "x = (z, s, v)" by (cases x)
  obtain s1 h1 where a: "go_append rt z s [v] h = (s1, h1)" by (cases "go_append rt z s [v] h")
  obtain ss2 h2 where b: "append_each rt r h1 = (ss2, h2)" by (cases "append_each rt r h1")
  from Cons.prems(1) x a b have e: "h' = h2" "ss = s1 # ss2" by simp_all
  have ok: "slice_ok h s" "list_all (slice_ok h) (srcs r)"
    and d: "ptr s \<notin> ptr ` set (srcs r)" "distinct (map ptr (srcs r))"
    using Cons.prems(2,3) x by auto
  have r1: "slice_ok h1 s1" "contents h1 s1 = contents h s @ [v]"
    using go_append_result [OF a ok(1)] by simp_all
  have p1: "ptr s1 = ptr s \<or> ptr s1 = narrays h" "narrays h \<le> narrays h1"
    using go_append_narrays [OF a] by simp_all
  have fr: "slice_ok h1 t \<and> contents h1 t = contents h t" if "t \<in> set (srcs r)" for t
  proof -
    have "ptr t \<noteq> ptr s" using d(1) that by (metis imageI)
    moreover have "slice_ok h t" using ok(2) that by (simp add: list_all_iff)
    ultimately show ?thesis using go_append_frame [OF a] by simp
  qed
  then have ok1: "list_all (slice_ok h1) (srcs r)" by (simp add: list_all_iff)
  from Cons.IH [OF b ok1 d(2)]
  have ih: "list_all2 (appended h1 h2) r ss2" "distinct (map ptr ss2)" by simp_all
  have notin: "ptr s1 \<notin> ptr ` set (srcs r)"
  proof
    assume "ptr s1 \<in> ptr ` set (srcs r)"
    then obtain t where t: "t \<in> set (srcs r)" "ptr s1 = ptr t" by auto
    then have "ptr t < narrays h" using ok(2) by (auto simp: list_all_iff slice_ok_def)
    with p1(1) t d(1) show False by (metis imageI less_irrefl)
  qed
  have s1': "slice_ok h2 s1 \<and> contents h2 s1 = contents h1 s1"
    using append_each_frame [OF b r1(1) notin] .
  have hd: "appended h h2 x s1"
    using s1' r1 p1 x by (auto simp: appended_def)
  have tl: "list_all2 (appended h h2) r ss2"
  proof (rule list.rel_mono_strong [OF ih(1)])
    fix y t assume y: "y \<in> set r" "t \<in> set ss2" "appended h1 h2 y t"
    have "fst (snd y) \<in> set (srcs r)" using y(1) by (force simp: srcs_def)
    from fr [OF this] y(3) p1(2) show "appended h h2 y t"
      by (auto simp: appended_def)
  qed
  have fresh: "ptr s1 \<notin> ptr ` set ss2"
  proof
    assume "ptr s1 \<in> ptr ` set ss2"
    then obtain t where t: "t \<in> set ss2" "ptr s1 = ptr t" by auto
    then obtain y where y: "y \<in> set r" "appended h1 h2 y t"
      using ih(1) by (metis list_all2_conv_all_nth in_set_conv_nth)
    have "fst (snd y) \<in> set (srcs r)" using y(1) by (force simp: srcs_def)
    then have "ptr (fst (snd y)) \<noteq> ptr s1" using notin by (metis imageI)
    with y(2) t(2) have "narrays h1 \<le> ptr s1" by (auto simp: appended_def)
    with r1(1) show False by (simp add: slice_ok_def)
  qed
  show ?case using hd tl fresh ih(2) e by simp
qed


lemma srcs_triples: "srcs (triples s pt) = pm_fields s"
  by (simp add: triples_def pm_fields_def srcs_def)

lemma length9:
  "length (ss :: 'a list) = 9 \<Longrightarrow> \<exists>a b c d e f g i j. ss = [a, b, c, d, e, f, g, i, j]"
  by (auto simp: length_Suc_conv eval_nat_numeral)

lemma pm_fields_of_fields: "length ss = 9 \<Longrightarrow> pm_fields (of_fields ss) = ss"
  by (drule length9) (auto simp: pm_fields_def of_fields_def)

lemma AddMetric_unfold:
  "AddMetric rt p pt h =
     (let (ss, h') = append_each rt (triples (structs h p) pt) h;
          s' = (if len (ss ! 0) > cap (ss ! 0) then of_fields (map slice_from1 ss)
                else of_fields ss)
      in h'\<lparr>structs := (structs h')(p := s')\<rparr>)"
  by (simp add: AddMetric_def triples_def of_fields_def Let_def split_beta)

lemma length_append_each: "append_each rt l h = (ss, h') \<Longrightarrow> length ss = length l"
  by (induction l arbitrary: h ss h') (auto simp: Let_def split: prod.splits)

lemma AddMetric_heap:
  "nstructs (AddMetric rt p pt h) = nstructs h \<and> narrays h \<le> narrays (AddMetric rt p pt h) \<and>
   (\<forall>q. q \<noteq> p \<longrightarrow> structs (AddMetric rt p pt h) q = structs h q)"
proof -
  obtain ss h' where a: "append_each rt (triples (structs h p) pt) h = (ss, h')"
    by (cases "append_each rt (triples (structs h p) pt) h")
  from append_each_heap [OF a] show ?thesis
    by (simp add: AddMetric_unfold a Let_def)
qed

lemma AddMetric_arrays:
  assumes "a < narrays h" "a \<notin> ptr ` set (pm_fields (structs h p))"
  shows "arrays (AddMetric rt p pt h) a = arrays h a"
proof -
  obtain ss h' where a: "append_each rt (triples (structs h p) pt) h = (ss, h')"
    by (cases "append_each rt (triples (structs h p) pt) h")
  from append_each_arrays [OF a assms(1)] assms(2) show ?thesis
    by (simp add: AddMetric_unfold a Let_def srcs_triples)
qed

lemma AddMetric_fields:
  assumes ok: "pm_ok h (structs h p)"
    and a: "append_each rt (triples (structs h p) pt) h = (ss, h')"
  shows "structs (AddMetric rt p pt h) p = of_fields ss" "arrays (AddMetric rt p pt h) = arrays h'"
    "narrays (AddMetric rt p pt h) = narrays h'"
    "list_all2 (appended h h') (triples (structs h p) pt) ss" "distinct (map ptr ss)" "length ss = 9"
proof -
  from append_each_result [OF a] ok
  show r: "list_all2 (appended h h') (triples (structs h p) pt) ss" and "distinct (map ptr ss)"
    by (simp_all add: pm_ok_def srcs_triples)
  show l: "length ss = 9" using length_append_each [OF a] by (simp add: triples_def)
  have "appended h h' (triples (structs h p) pt ! 0) (ss ! 0)"
    using r l by (simp add: list_all2_conv_all_nth)
  then have "len (ss ! 0) \<le> cap (ss ! 0)" by (simp add: appended_def slice_ok_def)
  then show "structs (AddMetric rt p pt h) p = of_fields ss"
    "arrays (AddMetric rt p pt h) = arrays h'" "narrays (AddMetric rt p pt h) = narrays h'"
    by (simp_all add: AddMetric_unfold a Let_def)
qed

lemma contents_cong: "arrays h = arrays h' \<Longrightarrow> contents h s = contents h' s"
  by (simp add: contents_def)

lemma slice_ok_cong: "arrays h = arrays h' \<Longrightarrow> narrays h = narrays h' \<Longrightarrow> slice_ok h s = slice_ok h' s"
  by (simp add: slice_ok_def)

lemma AddMetric_series:
  assumes ok: "pm_ok h (structs h p)"
  shows "series (AddMetric rt p pt h) p = map2 (\<lambda>xs v. xs @ [v]) (series h p) (point_vals pt)"
    and "pm_ok (AddMetric rt p pt h) (structs (AddMetric rt p pt h) p)"
proof -
  let ?h = "AddMetric rt p pt h"
  obtain ss h' where a: "append_each rt (triples (structs h p) pt) h = (ss, h')"
    by (cases "append_each rt (triples (structs h p) pt) h")
  note f = AddMetric_fields [OF ok a]
  have c: "contents ?h s = contents h' s" for s by (rule contents_cong) (simp add: f)
  have o: "slice_ok ?h = slice_ok h'" by (rule ext, rule slice_ok_cong) (simp_all add: f)
  have fs: "pm_fields (structs ?h p) = ss" by (simp add: f pm_fields_of_fields)
  have "list_all2 (\<lambda>x s'. contents h' s' = contents h (fst (snd x)) @ [snd (snd x)])
          (triples (structs h p) pt) ss"
    by (rule list.rel_mono_strong [OF f(4)]) (simp add: appended_def)
  then have "map (contents h') ss = map (\<lambda>x. contents h (fst (snd x)) @ [snd (snd x)]) (triples (structs h p) pt)"
    by (induction rule: list_all2_induct) simp_all
  moreover have "series ?h p = map (contents h') ss"
    unfolding series_def fs using c by simp
  moreover have "map (\<lambda>x. contents h (fst (snd x)) @ [snd (snd x)]) (triples (structs h p) pt)
      = map2 (\<lambda>xs v. xs @ [v]) (series h p) (point_vals pt)"
    by (simp add: series_def triples_def pm_fields_def point_vals_def)
  ultimately show "series ?h p = map2 (\<lambda>xs v. xs @ [v]) (series h p) (point_vals pt)"
    by simp
  have "list_all (slice_ok h') ss"
    using f(4) by (auto simp: list_all_iff appended_def in_set_conv_nth list_all2_conv_all_nth)
  then show "pm_ok ?h (structs ?h p)"
    by (simp add: pm_ok_def fs o f(5))
qed


lemma mset_insert_less: "mset (insert_less lt x ys) = add_mset x (mset ys)"
  by (induction ys) simp_all

lemma set_insert_less: "set (insert_less lt x ys) = insert x (set ys)"
  by (induction ys) auto

lemma mset_insertion_sort_aux:
  "mset (foldl (\<lambda>acc x. insert_less lt x acc) acc xs) = mset acc + mset xs"
  by (induction xs arbitrary: acc) (simp_all add: mset_insert_less)

lemma mset_insertion_sort: "mset (insertion_sort lt xs) = mset xs"
  by (simp add: insertion_sort_def mset_insertion_sort_aux)

lemma sorted_insert_less:
  assumes "strict_weak lt" "sorted_wrt (\<lambda>a b. \<not> lt b a) ys"
  shows "sorted_wrt (\<lambda>a b. \<not> lt b a) (insert_less lt x ys)"
  using assms(2)
proof (induction ys)
  case Nil
  then show ?case by simp
next
  case (Cons y ys)
  have tr: "\<not> lt a b \<Longrightarrow> \<not> lt b c \<Longrightarrow> \<not> lt a c" for a b c
    using assms(1) unfolding strict_weak_def by blast
  have asym: "lt a b \<Longrightarrow> \<not> lt b a" for a b
    using assms(1) unfolding strict_weak_def by blast
  show ?case
  proof (cases "lt x y")
    case True
    then have "\<not> lt y x" by (rule asym)
    moreover have "\<not> lt z x" if "z \<in> set ys" for z
    proof -
      have "\<not> lt z y" using Cons.prems that by simp
      with \<open>\<not> lt y x\<close> show ?thesis using tr by blast
    qed
    ultimately show ?thesis using True Cons.prems by simp
  next
    case False
    then show ?thesis using Cons by (auto simp: set_insert_less)
  qed
qed

lemma sorted_insertion_sort_aux:
  "strict_weak lt \<Longrightarrow> sorted_wrt (\<lambda>a b. \<not> lt b a) acc \<Longrightarrow>
     sorted_wrt (\<lambda>a b. \<not> lt b a) (foldl (\<lambda>acc x. insert_less lt x acc) acc xs)"
  by (induction xs arbitrary: acc) (simp_all add: sorted_insert_less)

lemma sorted_insertion_sort:
  "strict_weak lt \<Longrightarrow> sorted_wrt (\<lambda>a b. \<not> lt b a) (insertion_sort lt xs)"
  by (simp add: insertion_sort_def sorted_insertion_sort_aux)

lemma sort_contract_ref_runtime: "sort_contract ref_runtime"
  by (simp add: sort_contract_def ref_runtime_def mset_insertion_sort sorted_insertion_sort)


lemma NewProcessMetrics_heap:
  "NewProcessMetrics capacity h = (p, h') \<Longrightarrow>
     p = nstructs h \<and> nstructs h' = Suc (nstructs h) \<and> narrays h' = narrays h + 9 \<and>
     (\<forall>q. q \<noteq> p \<longrightarrow> structs h' q = structs h q) \<and>
     (\<forall>a. a < narrays h \<longrightarrow> arrays h' a = arrays h a)"
  by (auto simp: NewProcessMetrics_def make_slice_def Let_def)

lemma NewProcessMetrics_fields:
  "NewProcessMetrics capacity h = (p, h') \<Longrightarrow>
     pm_fields (structs h' p) =
       map (\<lambda>i. \<lparr>ptr = narrays h + i, off = 0, len = 0, cap = capacity\<rparr>) [0..<9]"
  by (auto simp: NewProcessMetrics_def make_slice_def Let_def pm_fields_def upt_rec numeral_eq_Suc)

lemma NewProcessMetrics_ok:
  "NewProcessMetrics capacity h = (p, h') \<Longrightarrow> pm_ok h' (structs h' p)"
  by (auto simp: NewProcessMetrics_def make_slice_def Let_def pm_fields_def pm_ok_def slice_ok_def)

lemma NewProcessMetrics_series:
  "NewProcessMetrics capacity h = (p, h') \<Longrightarrow> series h' p = replicate 9 []"
  by (auto simp: NewProcessMetrics_def make_slice_def Let_def pm_fields_def series_def contents_def
      numeral_eq_Suc)

lemma length_series [simp]: "length (series h p) = 9"
  by (simp add: series_def pm_fields_def)

lemma length_point_vals [simp]: "length (point_vals pt) = 9"
  by (simp add: point_vals_def)

lemma columns_Nil: "columns [] = replicate 9 []"
  by (simp add: columns_def upt_rec numeral_eq_Suc)

lemma columns_snoc:
  "columns (pts @ [pt]) = map2 (\<lambda>xs v. xs @ [v]) (columns pts) (point_vals pt)"
  by (simp add: columns_def point_vals_def upt_rec numeral_eq_Suc)

lemma add_points_series:
  "pm_ok h (structs h p) \<Longrightarrow> series h p = replicate 9 [] \<Longrightarrow>
     series (add_points rt p pts h) p = columns pts \<and>
     pm_ok (add_points rt p pts h) (structs (add_points rt p pts h) p)"
proof (induction pts rule: rev_induct)
  case Nil
  then show ?case by (simp add: add_points_def columns_Nil)
next
  case (snoc pt pts)
  then have ih: "series (add_points rt p pts h) p = columns pts"
    "pm_ok (add_points rt p pts h) (structs (add_points rt p pts h) p)" by simp_all
  have e: "add_points rt p (pts @ [pt]) h = AddMetric rt p pt (add_points rt p pts h)"
    by (simp add: add_points_def)
  show ?case
    unfolding e using AddMetric_series [OF ih(2), of rt pt] ih(1) by (simp add: columns_snoc)
qed

lemma new_series_keeps_every_point:
  "(case NewProcessMetrics capacity h of (p, h1) \<Rightarrow> series (add_points rt p pts h1) p)
   = columns pts"
proof -
  obtain p h1 where n: "NewProcessMetrics capacity h = (p, h1)"
    by (cases "NewProcessMetrics capacity h")
  from add_points_series [OF NewProcessMetrics_ok [OF n] NewProcessMetrics_series [OF n]]
  show ?thesis by (simp add: n)
qed

text \<open>
  Claim C1 (rolling window). The claim: a series never holds more than its capacity, and
  a series of capacity 3 that receives the points \<open>A\<close>, \<open>B\<close>, \<open>C\<close>, \<open>D\<close> ends as
  \<open>[B, C, D]\<close>. The code: \<^verbatim>\<open>AddMetric\<close> reads \<^verbatim>\<open>cap(pm.Timestamps)\<close> after the
  \<^verbatim>\<open>append\<close>, which has already grown the array, so the length never exceeds it and
  nothing is evicted. For every runtime and every heap, the series made by
  \<^verbatim>\<open>NewProcessMetrics(3)\<close> holds all four points \<open>[A, B, C, D]\<close> after the four calls.
\<close>

theorem capacity3_series_keeps_four_points:
  "(case NewProcessMetrics 3 h of (p, h1) \<Rightarrow>
      series (AddMetric rt p D (AddMetric rt p C (AddMetric rt p B (AddMetric rt p A h1)))) p)
   = columns [A, B, C, D]"
  using new_series_keeps_every_point [where capacity = 3 and h = h and rt = rt and pts = "[A, B, C, D]"]
  by (simp add: add_points_def)

lemma currentPIDs_aux:
  "foldl (\<lambda>c proc. c(PID proc := True)) c0 procs pid \<longleftrightarrow> c0 pid \<or> pid \<in> PID ` set procs"
  by (induction procs arbitrary: c0) auto

lemma currentPIDs_iff: "currentPIDs procs pid \<longleftrightarrow> pid \<in> PID ` set procs"
  by (simp add: currentPIDs_def currentPIDs_aux)

lemma CleanupOldMetrics_lookup:
  "processMetrics (CleanupOldMetrics m) pid =
     (if pid \<in> PID ` set (processes m) then processMetrics m pid else None)"
  by (simp add: CleanupOldMetrics_def currentPIDs_iff)

lemma EnsureProcessMetrics_absent:
  assumes "processMetrics m pid = None" "EnsureProcessMetrics pid m h = (m1, h1)"
  shows "m1 = m\<lparr>processMetrics := (processMetrics m)(pid \<mapsto> nstructs h)\<rparr>"
    "series h1 (nstructs h) = replicate 9 []"
    "map cap (pm_fields (structs h1 (nstructs h))) = replicate 9 (metricsCapacity m)"
    "nstructs h1 = Suc (nstructs h)"
proof -
  obtain p h' where n: "NewProcessMetrics (metricsCapacity m) h = (p, h')"
    by (cases "NewProcessMetrics (metricsCapacity m) h")
  note hp = NewProcessMetrics_heap [OF n]
  from assms n have e: "m1 = m\<lparr>processMetrics := (processMetrics m)(pid \<mapsto> p)\<rparr>" "h1 = h'"
    by (simp_all add: EnsureProcessMetrics_def)
  show "m1 = m\<lparr>processMetrics := (processMetrics m)(pid \<mapsto> nstructs h)\<rparr>"
    using e hp by simp
  show "series h1 (nstructs h) = replicate 9 []"
    using NewProcessMetrics_series [OF n] e hp by simp
  show "map cap (pm_fields (structs h1 (nstructs h))) = replicate 9 (metricsCapacity m)"
    using NewProcessMetrics_fields [OF n] e hp by (simp add: upt_rec numeral_eq_Suc)
  show "nstructs h1 = Suc (nstructs h)" using e hp by simp
qed

lemma EnsureProcessMetrics_present:
  "processMetrics m pid = Some p \<Longrightarrow> EnsureProcessMetrics pid m h = (m, h)"
  by (simp add: EnsureProcessMetrics_def)

text \<open>
  Claim C8 (ensureTracked is idempotent). A second call of \<^verbatim>\<open>EnsureProcessMetrics\<close> for
  the same identifier changes nothing, neither the registry nor the heap (no second
  object is made). A first call for an untracked identifier makes one object whose nine
  sequences are empty and have the configured capacity. A call for a tracked identifier
  returns the registry and the heap as they are, so the contents of its series stay.
\<close>

theorem EnsureProcessMetrics_idempotent:
  "(case EnsureProcessMetrics pid m h of (m1, h1) \<Rightarrow> EnsureProcessMetrics pid m1 h1 = (m1, h1)) \<and>
   (processMetrics m pid = None \<longrightarrow>
      (case EnsureProcessMetrics pid m h of (m1, h1) \<Rightarrow>
         processMetrics m1 pid = Some (nstructs h) \<and>
         series h1 (nstructs h) = replicate 9 [] \<and>
         map cap (pm_fields (structs h1 (nstructs h))) = replicate 9 (metricsCapacity m) \<and>
         nstructs h1 = Suc (nstructs h))) \<and>
   (processMetrics m pid \<noteq> None \<longrightarrow> EnsureProcessMetrics pid m h = (m, h))"
proof (intro conjI impI)
  obtain m1 h1 where e: "EnsureProcessMetrics pid m h = (m1, h1)"
    by (cases "EnsureProcessMetrics pid m h")
  show "case EnsureProcessMetrics pid m h of (m1, h1) \<Rightarrow> EnsureProcessMetrics pid m1 h1 = (m1, h1)"
  proof (cases "processMetrics m pid")
    case None
    from EnsureProcessMetrics_absent(1) [OF None e] have "processMetrics m1 pid = Some (nstructs h)"
      by simp
    then show ?thesis using e by (simp add: EnsureProcessMetrics_present)
  next
    case (Some p)
    then show ?thesis by (simp add: EnsureProcessMetrics_present)
  qed
  assume n: "processMetrics m pid = None"
  from EnsureProcessMetrics_absent [OF n e]
  show "case EnsureProcessMetrics pid m h of (m1, h1) \<Rightarrow>
         processMetrics m1 pid = Some (nstructs h) \<and>
         series h1 (nstructs h) = replicate 9 [] \<and>
         map cap (pm_fields (structs h1 (nstructs h))) = replicate 9 (metricsCapacity m) \<and>
         nstructs h1 = Suc (nstructs h)"
    by (simp add: e)
next
  assume "processMetrics m pid \<noteq> None"
  then show "EnsureProcessMetrics pid m h = (m, h)"
    by (auto simp: EnsureProcessMetrics_present)
qed

lemma updateProcessTimeSeriesMetrics_tracked:
  "processMetrics (fst (updateProcessTimeSeriesMetrics rt info t m h)) (PID info) \<noteq> None"
  by (auto simp: updateProcessTimeSeriesMetrics_def Let_def split_beta split: option.splits)

text \<open>
  Witness: identifier 7 on the new registry (untracked), and on the registry after one
  time-series update for 7 (tracked, one point stored).
\<close>

theorem EnsureProcessMetrics_idempotent_witness:
  "(case EnsureProcessMetrics 7 NewMonitor empty_heap of (m1, h1) \<Rightarrow>
      EnsureProcessMetrics 7 m1 h1 = (m1, h1) \<and> processMetrics m1 7 = Some 1 \<and>
      series h1 1 = replicate 9 [] \<and>
      map cap (pm_fields (structs h1 1)) = replicate 9 60 \<and> nstructs h1 = 2) \<and>
   (case updateProcessTimeSeriesMetrics ref_runtime info7 5 NewMonitor empty_heap of (m2, h2) \<Rightarrow>
      processMetrics m2 7 \<noteq> None \<and> EnsureProcessMetrics 7 m2 h2 = (m2, h2))"
proof -
  have a: "processMetrics NewMonitor 7 = None" "nstructs empty_heap = 1" "metricsCapacity NewMonitor = 60"
    by (simp_all add: NewMonitor_def empty_heap_def)
  obtain m2 h2 where u: "updateProcessTimeSeriesMetrics ref_runtime info7 5 NewMonitor empty_heap = (m2, h2)"
    by (cases "updateProcessTimeSeriesMetrics ref_runtime info7 5 NewMonitor empty_heap")
  have b: "processMetrics m2 7 \<noteq> None"
    using updateProcessTimeSeriesMetrics_tracked [of ref_runtime info7 5 NewMonitor empty_heap] u
    by (simp add: info7_def)
  show ?thesis
    using EnsureProcessMetrics_idempotent [of 7 NewMonitor empty_heap]
      EnsureProcessMetrics_idempotent [of 7 m2 h2] a b u
    by (simp add: split_beta)
qed

lemma go_append_len_le_cap: "go_append rt z s vs h = (s', h') \<Longrightarrow> len s' \<le> cap s'"
  by (auto simp: go_append_def Let_def split: if_splits)

lemma go_append_ptr:
  "go_append rt z s vs h = (s', h') \<Longrightarrow>
     ptr s' = ptr s \<or> (narrays h \<le> ptr s' \<and> ptr s' < narrays h')"
  by (auto simp: go_append_def Let_def split: if_splits)

lemma go_append_nil:
  assumes "go_append rt z nil_slice vs h = (s', h')"
  shows "contents h' s' = vs" "structs h' = structs h" "nstructs h' = nstructs h"
    "narrays h \<le> narrays h'" "a < narrays h \<Longrightarrow> arrays h' a = arrays h a"
    "len s' = 0 \<or> (narrays h \<le> ptr s' \<and> ptr s' < narrays h')"
proof -
  show "contents h' s' = vs"
    using assms by (cases "vs = []") (auto simp: go_append_def Let_def nil_slice_def contents_def)
  show "structs h' = structs h" "nstructs h' = nstructs h"
    using go_append_structs [OF assms] by simp_all
  show "narrays h \<le> narrays h'"
    using go_append_narrays [OF assms] by simp
  show "arrays h' a = arrays h a" if "a < narrays h"
    using assms that by (cases "vs = []") (auto simp: go_append_def Let_def nil_slice_def)
  show "len s' = 0 \<or> (narrays h \<le> ptr s' \<and> ptr s' < narrays h')"
    using assms by (cases "vs = []") (auto simp: go_append_def Let_def nil_slice_def)
qed

lemma contents_empty: "len t = 0 \<Longrightarrow> contents h t = []"
  by (simp add: contents_def)

lemma contents_same: "arrays h' (ptr t) = arrays h (ptr t) \<Longrightarrow> contents h' t = contents h t"
  by (simp add: contents_def)

lemma copy_each_heap:
  "copy_each rt l h = (ss, h') \<Longrightarrow>
     structs h' = structs h \<and> nstructs h' = nstructs h \<and> narrays h \<le> narrays h'"
proof (induction l arbitrary: h ss h')
  case Nil
  then show ?case by simp
next
  case (Cons x r)
  obtain z s where x: "x = (z, s)" by (cases x)
  obtain s1 h1 where a: "go_append rt z nil_slice (contents h s) h = (s1, h1)"
    by (cases "go_append rt z nil_slice (contents h s) h")
  obtain ss2 h2 where b: "copy_each rt r h1 = (ss2, h2)" by (cases "copy_each rt r h1")
  from Cons.prems(1) x a b have e: "h' = h2" by simp
  from go_append_nil(2,3,4) [OF a] Cons.IH [OF b] e show ?case by simp
qed

lemma copy_each_arrays:
  "copy_each rt l h = (ss, h') \<Longrightarrow> a < narrays h \<Longrightarrow> arrays h' a = arrays h a"
proof (induction l arbitrary: h ss h')
  case Nil
  then show ?case by simp
next
  case (Cons x r)
  obtain z s where x: "x = (z, s)" by (cases x)
  obtain s1 h1 where a: "go_append rt z nil_slice (contents h s) h = (s1, h1)"
    by (cases "go_append rt z nil_slice (contents h s) h")
  obtain ss2 h2 where b: "copy_each rt r h1 = (ss2, h2)" by (cases "copy_each rt r h1")
  from Cons.prems(1) x a b have e: "h' = h2" by simp
  have "a < narrays h1" using go_append_nil(4) [OF a] Cons.prems(2) by simp
  from Cons.IH [OF b this] go_append_nil(5) [OF a Cons.prems(2)] e show ?case by simp
qed

lemma copy_each_copied:
  "copy_each rt l h = (ss, h') \<Longrightarrow> list_all (copied h h') ss"
proof (induction l arbitrary: h ss h')
  case Nil
  then show ?case by simp
next
  case (Cons x r)
  obtain z s where x: "x = (z, s)" by (cases x)
  obtain s1 h1 where a: "go_append rt z nil_slice (contents h s) h = (s1, h1)"
    by (cases "go_append rt z nil_slice (contents h s) h")
  obtain ss2 h2 where b: "copy_each rt r h1 = (ss2, h2)" by (cases "copy_each rt r h1")
  from Cons.prems(1) x a b have e: "h' = h2" "ss = s1 # ss2" by simp_all
  have m: "narrays h \<le> narrays h1" "narrays h1 \<le> narrays h2"
    using go_append_nil(4) [OF a] copy_each_heap [OF b] by simp_all
  have "copied h h2 s1"
    using go_append_nil(6) [OF a] m by (auto simp: copied_def)
  moreover have "list_all (copied h h2) ss2"
    using Cons.IH [OF b] m by (auto simp: list_all_iff copied_def)
  ultimately show ?case using e by simp
qed

lemma copy_each_contents:
  "copy_each rt l h = (ss, h') \<Longrightarrow> list_all (\<lambda>x. ptr (snd x) < narrays h) l \<Longrightarrow>
     map (contents h') ss = map (\<lambda>x. contents h (snd x)) l"
proof (induction l arbitrary: h ss h')
  case Nil
  then show ?case by simp
next
  case (Cons x r)
  obtain z s where x: "x = (z, s)" by (cases x)
  obtain s1 h1 where a: "go_append rt z nil_slice (contents h s) h = (s1, h1)"
    by (cases "go_append rt z nil_slice (contents h s) h")
  obtain ss2 h2 where b: "copy_each rt r h1 = (ss2, h2)" by (cases "copy_each rt r h1")
  from Cons.prems(1) x a b have e: "h' = h2" "ss = s1 # ss2" by simp_all
  note n = go_append_nil [OF a]
  have pr: "list_all (\<lambda>x. ptr (snd x) < narrays h1) r"
    using Cons.prems(2) n(4) by (auto simp: list_all_iff)
  have c1: "contents h2 s1 = contents h s"
  proof (cases "len s1 = 0")
    case True
    then show ?thesis using n(1) by (simp add: contents_empty)
  next
    case False
    then have "ptr s1 < narrays h1" using n(6) by simp
    then have "arrays h2 (ptr s1) = arrays h1 (ptr s1)" by (rule copy_each_arrays [OF b])
    then have "contents h2 s1 = contents h1 s1" by (rule contents_same)
    then show ?thesis using n(1) by simp
  qed
  have c2: "contents h1 (snd y) = contents h (snd y)" if "y \<in> set r" for y
  proof -
    have "ptr (snd y) < narrays h" using Cons.prems(2) that by (simp add: list_all_iff)
    then have "arrays h1 (ptr (snd y)) = arrays h (ptr (snd y))" by (rule n(5))
    then show ?thesis by (rule contents_same)
  qed
  have "map (contents h2) ss2 = map (\<lambda>x. contents h1 (snd x)) r"
    by (rule Cons.IH [OF b pr])
  also have "\<dots> = map (\<lambda>x. contents h (snd x)) r"
    using c2 by simp
  finally show ?case using e c1 x by simp
qed

lemma length_copy_each: "copy_each rt l h = (ss, h') \<Longrightarrow> length ss = length l"
  by (induction l arbitrary: h ss h') (auto simp: Let_def split: prod.splits)

lemma GetProcessMetrics_unfold:
  assumes "processMetrics m pid = Some p"
  shows "GetProcessMetrics rt pid m h =
     (let (ss, h') = copy_each rt (zip zeros (pm_fields (structs h p))) h; q = nstructs h'
      in (Some q, h'\<lparr>structs := (structs h')(q := of_fields ss), nstructs := Suc q\<rparr>))"
proof -
  obtain s1 h1 where a1: "go_append rt (TimeV 0) nil_slice (contents h (pm_Timestamps (structs h p))) h = (s1, h1)"
    by (cases "go_append rt (TimeV 0) nil_slice (contents h (pm_Timestamps (structs h p))) h")
  obtain s2 h2 where a2: "go_append rt (F64 0) nil_slice (contents h1 (pm_CPUPercent (structs h p))) h1 = (s2, h2)"
    by (cases "go_append rt (F64 0) nil_slice (contents h1 (pm_CPUPercent (structs h p))) h1")
  obtain s3 h3 where a3: "go_append rt (F64 0) nil_slice (contents h2 (pm_MemoryMB (structs h p))) h2 = (s3, h3)"
    by (cases "go_append rt (F64 0) nil_slice (contents h2 (pm_MemoryMB (structs h p))) h2")
  obtain s4 h4 where a4: "go_append rt (F64 0) nil_slice (contents h3 (pm_DiskReadRate (structs h p))) h3 = (s4, h4)"
    by (cases "go_append rt (F64 0) nil_slice (contents h3 (pm_DiskReadRate (structs h p))) h3")
  obtain s5 h5 where a5: "go_append rt (F64 0) nil_slice (contents h4 (pm_DiskWriteRate (structs h p))) h4 = (s5, h5)"
    by (cases "go_append rt (F64 0) nil_slice (contents h4 (pm_DiskWriteRate (structs h p))) h4")
  obtain s6 h6 where a6: "go_append rt (F64 0) nil_slice (contents h5 (pm_DiskReadPerc (structs h p))) h5 = (s6, h6)"
    by (cases "go_append rt (F64 0) nil_slice (contents h5 (pm_DiskReadPerc (structs h p))) h5")
  obtain s7 h7 where a7: "go_append rt (F64 0) nil_slice (contents h6 (pm_DiskWritePerc (structs h p))) h6 = (s7, h7)"
    by (cases "go_append rt (F64 0) nil_slice (contents h6 (pm_DiskWritePerc (structs h p))) h6")
  obtain s8 h8 where a8: "go_append rt (F64 0) nil_slice (contents h7 (pm_NetSentRate (structs h p))) h7 = (s8, h8)"
    by (cases "go_append rt (F64 0) nil_slice (contents h7 (pm_NetSentRate (structs h p))) h7")
  obtain s9 h9 where a9: "go_append rt (F64 0) nil_slice (contents h8 (pm_NetRecvRate (structs h p))) h8 = (s9, h9)"
    by (cases "go_append rt (F64 0) nil_slice (contents h8 (pm_NetRecvRate (structs h p))) h8")
  show ?thesis
    by (simp add: GetProcessMetrics_def assms zeros_def pm_fields_def of_fields_def
        a1 a2 a3 a4 a5 a6 a7 a8 a9)
qed

lemma series_structs_update:
  "series (h\<lparr>structs := (structs h)(q := s), nstructs := n\<rparr>) p =
     (if p = q then map (contents h) (pm_fields s) else series h p)"
  by (simp add: series_def contents_def)

lemma GetProcessMetrics_detached:
  assumes ok: "monitor_ok m h" and p: "processMetrics m pid = Some p"
    and g: "GetProcessMetrics rt pid m h = (r, h1)"
  shows "r = Some (nstructs h)" "monitor_ok m h1" "detached m h1 (nstructs h)"
    "series h1 (nstructs h) = series h p"
proof -
  let ?l = "zip zeros (pm_fields (structs h p))"
  obtain ss h' where c: "copy_each rt ?l h = (ss, h')" by (cases "copy_each rt ?l h")
  have sn: "map snd ?l = pm_fields (structs h p)" by (simp add: zeros_def pm_fields_def)
  have alloc: "p < nstructs h" "\<forall>t \<in> set (pm_fields (structs h p)). ptr t < narrays h"
    using ok p by (auto simp: monitor_ok_def)
  have pl: "list_all (\<lambda>x. ptr (snd x) < narrays h) ?l"
    using alloc(2) sn by (simp add: list_all_iff zeros_def pm_fields_def)
  have res: "map (contents h') ss = map (\<lambda>x. contents h (snd x)) ?l"
    "structs h' = structs h" "nstructs h' = nstructs h" "narrays h \<le> narrays h'"
    using copy_each_contents [OF c pl] copy_each_heap [OF c] by simp_all
  have res5: "arrays h' a = arrays h a" if "a < narrays h" for a
    using that by (rule copy_each_arrays [OF c])
  have res6: "list_all (copied h h') ss" by (rule copy_each_copied [OF c])
  have l9: "length ss = 9" using length_copy_each [OF c] by (simp add: zeros_def pm_fields_def)
  from g have r: "r = Some (nstructs h)"
    and h1: "h1 = h'\<lparr>structs := (structs h')(nstructs h := of_fields ss), nstructs := Suc (nstructs h)\<rparr>"
    by (simp_all add: GetProcessMetrics_unfold [OF p] c res(3) Let_def)
  show "r = Some (nstructs h)" by (rule r)
  have st: "structs h1 q = structs h q" if "q < nstructs h" for q
    using that by (simp add: h1 res(2))
  have fq: "pm_fields (structs h1 (nstructs h)) = ss"
    by (simp add: h1 pm_fields_of_fields l9)
  have nh: "narrays h1 = narrays h'" "nstructs h1 = Suc (nstructs h)" "arrays h1 = arrays h'"
    by (simp_all add: h1)
  show "monitor_ok m h1"
    unfolding monitor_ok_def
  proof (intro allI impI)
    fix pid' p' assume "processMetrics m pid' = Some p'"
    then have a: "p' < nstructs h" "\<forall>t \<in> set (pm_fields (structs h p')). ptr t < narrays h"
      using ok by (auto simp: monitor_ok_def)
    then show "p' < nstructs h1 \<and> (\<forall>t\<in>set (pm_fields (structs h1 p')). ptr t < narrays h1)"
      using st [OF a(1)] nh res(4) by fastforce
  qed
  show "detached m h1 (nstructs h)"
    unfolding detached_def
  proof (intro conjI ballI allI)
    show "nstructs h < nstructs h1" by (simp add: nh)
    show "processMetrics m pid' \<noteq> Some (nstructs h)" for pid'
      using ok by (auto simp: monitor_ok_def)
    fix t assume "t \<in> set (pm_fields (structs h1 (nstructs h)))"
    then have t: "t \<in> set ss" by (simp add: fq)
    show "len t = 0 \<or> (ptr t < narrays h1 \<and>
       (\<forall>pid p. processMetrics m pid = Some p \<longrightarrow> ptr t \<notin> ptr ` set (pm_fields (structs h1 p))))"
    proof (cases "len t = 0")
      case False
      then have b: "narrays h \<le> ptr t" "ptr t < narrays h'"
        using res6 t by (auto simp: list_all_iff copied_def)
      have "ptr t \<notin> ptr ` set (pm_fields (structs h1 p'))" if "processMetrics m pid' = Some p'" for pid' p'
      proof -
        have a: "p' < nstructs h" "\<forall>u \<in> set (pm_fields (structs h p')). ptr u < narrays h"
          using ok that by (auto simp: monitor_ok_def)
        show ?thesis using st [OF a(1)] a(2) b(1) by fastforce
      qed
      then show ?thesis using b nh by simp
    qed simp
  qed
  have "series h1 (nstructs h) = map (contents h') ss"
    by (simp add: h1 series_structs_update pm_fields_of_fields l9)
  also have "\<dots> = map (\<lambda>x. contents h (snd x)) ?l" by (rule res(1))
  also have "\<dots> = series h p" by (simp add: series_def zeros_def pm_fields_def)
  finally show "series h1 (nstructs h) = series h p" .
qed

lemma append_each_moved:
  "append_each rt l h = (ss, h') \<Longrightarrow>
     list_all (\<lambda>t. len t \<le> cap t \<and> moved h h' (srcs l) t) ss"
proof (induction l arbitrary: h ss h')
  case Nil
  then show ?case by simp
next
  case (Cons x r)
  obtain z s v where x: "x = (z, s, v)" by (cases x)
  obtain s1 h1 where a: "go_append rt z s [v] h = (s1, h1)" by (cases "go_append rt z s [v] h")
  obtain ss2 h2 where b: "append_each rt r h1 = (ss2, h2)" by (cases "append_each rt r h1")
  from Cons.prems(1) x a b have e: "h' = h2" "ss = s1 # ss2" by simp_all
  have m: "narrays h \<le> narrays h1" "narrays h1 \<le> narrays h2"
    using go_append_narrays [OF a] append_each_heap [OF b] by simp_all
  have "len s1 \<le> cap s1" by (rule go_append_len_le_cap [OF a])
  moreover have "moved h h2 (srcs (x # r)) s1"
    using go_append_ptr [OF a] m x by (auto simp: moved_def)
  moreover have "list_all (\<lambda>t. len t \<le> cap t \<and> moved h h2 (srcs (x # r)) t) ss2"
    using Cons.IH [OF b] m x by (auto simp: list_all_iff moved_def)
  ultimately show ?case using e by simp
qed

lemma AddMetric_struct:
  assumes a: "append_each rt (triples (structs h p) pt) h = (ss, h')"
  shows "structs (AddMetric rt p pt h) p = of_fields ss"
    "arrays (AddMetric rt p pt h) = arrays h'" "narrays (AddMetric rt p pt h) = narrays h'"
    "length ss = 9"
proof -
  show l: "length ss = 9" using length_append_each [OF a] by (simp add: triples_def)
  have "list_all (\<lambda>t. len t \<le> cap t) ss"
    using append_each_moved [OF a] by (simp add: list_all_iff)
  then have "len (ss ! 0) \<le> cap (ss ! 0)" using l by (simp add: list_all_length)
  then show "structs (AddMetric rt p pt h) p = of_fields ss"
    "arrays (AddMetric rt p pt h) = arrays h'" "narrays (AddMetric rt p pt h) = narrays h'"
    by (simp_all add: AddMetric_unfold a Let_def)
qed

lemma AddMetric_moved:
  "list_all (moved h (AddMetric rt p pt h) (pm_fields (structs h p)))
     (pm_fields (structs (AddMetric rt p pt h) p))"
proof -
  obtain ss h' where a: "append_each rt (triples (structs h p) pt) h = (ss, h')"
    by (cases "append_each rt (triples (structs h p) pt) h")
  note s = AddMetric_struct [OF a]
  have "list_all (moved h h' (pm_fields (structs h p))) ss"
    using append_each_moved [OF a] by (simp add: list_all_iff srcs_triples)
  moreover have "moved h (AddMetric rt p pt h) = moved h h'"
    by (intro ext) (simp add: moved_def s)
  ultimately show ?thesis
    by (simp add: s pm_fields_of_fields)
qed

lemma series_eqI:
  assumes "structs h' q = structs h q"
    and "\<And>t. t \<in> set (pm_fields (structs h q)) \<Longrightarrow> len t \<noteq> 0 \<Longrightarrow> arrays h' (ptr t) = arrays h (ptr t)"
  shows "series h' q = series h q"
proof -
  have "contents h' t = contents h t" if "t \<in> set (pm_fields (structs h q))" for t
  proof (cases "len t = 0")
    case True
    then show ?thesis by (simp add: contents_empty)
  next
    case False
    then show ?thesis by (intro contents_same assms(2) [OF that])
  qed
  then show ?thesis by (simp add: series_def assms(1))
qed

lemma AddMetric_detached:
  assumes ok: "monitor_ok m h" and d: "detached m h q" and p: "processMetrics m pid = Some p"
  shows "monitor_ok m (AddMetric rt p pt h)" "detached m (AddMetric rt p pt h) q"
    "series (AddMetric rt p pt h) q = series h q"
proof -
  let ?h = "AddMetric rt p pt h"
  note hp = AddMetric_heap [of rt p pt h]
  have st: "structs ?h p' = structs h p'" if "p' \<noteq> p" for p' using hp that by simp
  have mv: "ptr t \<in> ptr ` set (pm_fields (structs h p)) \<or> (narrays h \<le> ptr t \<and> ptr t < narrays ?h)"
    if "t \<in> set (pm_fields (structs ?h p))" for t
    using AddMetric_moved [of h rt p pt] that by (auto simp: list_all_iff moved_def)
  have al: "p' < nstructs h" "\<And>t. t \<in> set (pm_fields (structs h p')) \<Longrightarrow> ptr t < narrays h"
    if "processMetrics m pid' = Some p'" for pid' p'
    using ok that by (auto simp: monitor_ok_def)
  have al': "ptr t < narrays ?h" if "processMetrics m pid' = Some p'"
    "t \<in> set (pm_fields (structs ?h p'))" for pid' p' t
  proof (cases "p' = p")
    case True
    from mv [of t] that(2) True
    have "ptr t \<in> ptr ` set (pm_fields (structs h p)) \<or> (narrays h \<le> ptr t \<and> ptr t < narrays ?h)"
      by simp
    then show ?thesis
    proof
      assume "ptr t \<in> ptr ` set (pm_fields (structs h p))"
      then obtain u where "u \<in> set (pm_fields (structs h p))" "ptr t = ptr u" by auto
      then have "ptr t < narrays h" using al(2) [OF p] by simp
      then show ?thesis using hp by simp
    qed simp
  next
    case False
    have "t \<in> set (pm_fields (structs h p'))" using st [OF False] that(2) by simp
    then have "ptr t < narrays h" using al(2) [OF that(1)] by simp
    then show ?thesis using hp by simp
  qed
  show "monitor_ok m ?h"
    unfolding monitor_ok_def
  proof (intro allI impI conjI ballI)
    fix pid' p' assume a: "processMetrics m pid' = Some p'"
    show "p' < nstructs ?h" using al(1) [OF a] hp by simp
    fix t assume "t \<in> set (pm_fields (structs ?h p'))"
    then show "ptr t < narrays ?h" by (rule al' [OF a])
  qed
  have qp: "q \<noteq> p" using d p by (auto simp: detached_def)
  have dq: "len t = 0 \<or> (ptr t < narrays h \<and> ptr t \<notin> ptr ` set (pm_fields (structs h p')))"
    if "t \<in> set (pm_fields (structs h q))" "processMetrics m pid' = Some p'" for t pid' p'
    using d that unfolding detached_def by blast
  show "detached m ?h q"
    unfolding detached_def
  proof (intro conjI ballI allI)
    show "q < nstructs ?h" using d hp by (simp add: detached_def)
    show "processMetrics m pid' \<noteq> Some q" for pid' using d by (simp add: detached_def)
    fix t assume "t \<in> set (pm_fields (structs ?h q))"
    then have t: "t \<in> set (pm_fields (structs h q))" using st [OF qp] by simp
    show "len t = 0 \<or> (ptr t < narrays ?h \<and>
       (\<forall>pid p. processMetrics m pid = Some p \<longrightarrow> ptr t \<notin> ptr ` set (pm_fields (structs ?h p))))"
    proof (cases "len t = 0")
      case False
      have lt: "ptr t < narrays h" using dq [OF t p] False by simp
      have "ptr t \<notin> ptr ` set (pm_fields (structs ?h p'))" if pp: "processMetrics m pid' = Some p'" for pid' p'
      proof (cases "p' = p")
        case True
        show ?thesis
        proof
          assume "ptr t \<in> ptr ` set (pm_fields (structs ?h p'))"
          then obtain u where u: "u \<in> set (pm_fields (structs ?h p))" "ptr t = ptr u"
            using True by auto
          from mv [OF u(1)] show False
          proof
            assume "ptr u \<in> ptr ` set (pm_fields (structs h p))"
            then show False using dq [OF t p] False u(2) by simp
          next
            assume "narrays h \<le> ptr u \<and> ptr u < narrays ?h"
            then show False using lt u(2) by simp
          qed
        qed
      next
        case False': False
        show ?thesis using dq [OF t pp] False st [OF False'] by simp
      qed
      then show ?thesis using False lt hp by auto
    qed simp
  qed
  show "series ?h q = series h q"
  proof (rule series_eqI)
    show "structs ?h q = structs h q" by (rule st [OF qp])
    fix t assume t: "t \<in> set (pm_fields (structs h q))" "len t \<noteq> 0"
    from dq [OF t(1) p] t(2)
    have "ptr t < narrays h" "ptr t \<notin> ptr ` set (pm_fields (structs h p))" by simp_all
    then show "arrays ?h (ptr t) = arrays h (ptr t)" by (rule AddMetric_arrays)
  qed
qed

lemma NewProcessMetrics_detached:
  assumes ok: "monitor_ok m h" and d: "detached m h q"
    and n: "NewProcessMetrics capacity h = (p, h')"
  shows "monitor_ok (m\<lparr>processMetrics := (processMetrics m)(pid \<mapsto> p)\<rparr>) h'"
    "detached (m\<lparr>processMetrics := (processMetrics m)(pid \<mapsto> p)\<rparr>) h' q"
    "series h' q = series h q"
proof -
  let ?m = "m\<lparr>processMetrics := (processMetrics m)(pid \<mapsto> p)\<rparr>"
  note hp = NewProcessMetrics_heap [OF n]
  have fp: "pm_fields (structs h' p) =
       map (\<lambda>i. \<lparr>ptr = narrays h + i, off = 0, len = 0, cap = capacity\<rparr>) [0..<9]"
    by (rule NewProcessMetrics_fields [OF n])
  have newp: "narrays h \<le> ptr t \<and> ptr t < narrays h'" if "t \<in> set (pm_fields (structs h' p))" for t
    using that hp unfolding fp by auto
  have st: "structs h' p' = structs h p'" if "p' < nstructs h" for p' using hp that by simp
  have al: "p' < nstructs h" "\<And>t. t \<in> set (pm_fields (structs h p')) \<Longrightarrow> ptr t < narrays h"
    if "processMetrics m pid' = Some p'" for pid' p'
    using ok that by (auto simp: monitor_ok_def)
  have cases: "p' = p \<or> (p' < nstructs h \<and> processMetrics m pid' = Some p')"
    if "processMetrics ?m pid' = Some p'" for pid' p'
    using that al(1) by (auto split: if_splits)
  show "monitor_ok ?m h'"
    unfolding monitor_ok_def
  proof (intro allI impI conjI ballI)
    fix pid' p' assume a: "processMetrics ?m pid' = Some p'"
    show "p' < nstructs h'" using cases [OF a] hp by auto
    fix t assume t: "t \<in> set (pm_fields (structs h' p'))"
    from cases [OF a] show "ptr t < narrays h'"
    proof
      assume "p' = p" then show ?thesis using newp t by simp
    next
      assume b: "p' < nstructs h \<and> processMetrics m pid' = Some p'"
      then have "ptr t < narrays h" using al(2) [of pid' p' t] t st by simp
      then show ?thesis using hp by simp
    qed
  qed
  have q: "q < nstructs h" using d by (simp add: detached_def)
  have dq: "len t = 0 \<or> (ptr t < narrays h \<and> ptr t \<notin> ptr ` set (pm_fields (structs h p')))"
    if "t \<in> set (pm_fields (structs h q))" "processMetrics m pid' = Some p'" for t pid' p'
    using d that unfolding detached_def by blast
  have dq': "len t = 0 \<or> ptr t < narrays h" if "t \<in> set (pm_fields (structs h q))" for t
    using d that unfolding detached_def by blast
  show "detached ?m h' q"
    unfolding detached_def
  proof (intro conjI ballI allI)
    show "q < nstructs h'" using q hp by simp
    show "processMetrics ?m pid' \<noteq> Some q" for pid'
      using d q hp by (auto simp: detached_def)
    fix t assume "t \<in> set (pm_fields (structs h' q))"
    then have t: "t \<in> set (pm_fields (structs h q))" using st [OF q] by simp
    show "len t = 0 \<or> (ptr t < narrays h' \<and>
       (\<forall>pid p. processMetrics ?m pid = Some p \<longrightarrow> ptr t \<notin> ptr ` set (pm_fields (structs h' p))))"
    proof (cases "len t = 0")
      case False
      have lt: "ptr t < narrays h" using dq' [OF t] False by simp
      have "ptr t \<notin> ptr ` set (pm_fields (structs h' p'))" if pp: "processMetrics ?m pid' = Some p'" for pid' p'
        using cases [OF pp]
      proof
        assume "p' = p"
        then show ?thesis using newp lt by fastforce
      next
        assume b: "p' < nstructs h \<and> processMetrics m pid' = Some p'"
        then show ?thesis using dq [OF t, of pid' p'] False st by simp
      qed
      then show ?thesis using False lt hp by auto
    qed simp
  qed
  show "series h' q = series h q"
  proof (rule series_eqI)
    show "structs h' q = structs h q" by (rule st [OF q])
    fix t assume t: "t \<in> set (pm_fields (structs h q))" "len t \<noteq> 0"
    have "ptr t < narrays h" using dq' [OF t(1)] t(2) by simp
    then show "arrays h' (ptr t) = arrays h (ptr t)" using hp by simp
  qed
qed

lemma update_detached:
  assumes ok: "monitor_ok m h" and d: "detached m h q"
    and u: "updateProcessTimeSeriesMetrics rt info t m h = (m', h')"
  shows "monitor_ok m' h' \<and> detached m' h' q \<and> series h' q = series h q"
proof (cases "processMetrics m (PID info)")
  case None
  obtain p h1 where n: "NewProcessMetrics (metricsCapacity m) h = (p, h1)"
    by (cases "NewProcessMetrics (metricsCapacity m) h")
  let ?m = "m\<lparr>processMetrics := (processMetrics m)(PID info \<mapsto> p)\<rparr>"
  note a = NewProcessMetrics_detached(1) [OF ok d n, of "PID info"]
    NewProcessMetrics_detached(2) [OF ok d n, of "PID info"]
    NewProcessMetrics_detached(3) [OF ok d n]
  have pp: "processMetrics ?m (PID info) = Some p" by simp
  from u None n have e: "m' = ?m" "\<exists>pt. h' = AddMetric rt p pt h1"
    by (auto simp: updateProcessTimeSeriesMetrics_def Let_def)
  then obtain pt where h': "h' = AddMetric rt p pt h1" by blast
  from AddMetric_detached [OF a(1) a(2) pp, of rt pt] a(3) e(1) h'
  show ?thesis by simp
next
  case (Some p)
  from u Some have e: "m' = m" "\<exists>pt. h' = AddMetric rt p pt h"
    by (auto simp: updateProcessTimeSeriesMetrics_def Let_def)
  then obtain pt where h': "h' = AddMetric rt p pt h" by blast
  from AddMetric_detached [OF ok d Some, of rt pt] e(1) h'
  show ?thesis by simp
qed

lemma updates_detached:
  "monitor_ok m h \<Longrightarrow> detached m h q \<Longrightarrow> updates rt us m h = (m', h') \<Longrightarrow>
     monitor_ok m' h' \<and> detached m' h' q \<and> series h' q = series h q"
proof (induction us arbitrary: m h)
  case Nil
  then show ?case by simp
next
  case (Cons x us)
  obtain info t where x: "x = (info, t)" by (cases x)
  obtain m1 h1 where u: "updateProcessTimeSeriesMetrics rt info t m h = (m1, h1)"
    by (cases "updateProcessTimeSeriesMetrics rt info t m h")
  note a = update_detached [OF Cons.prems(1,2) u]
  have "updates rt us m1 h1 = (m', h')" using Cons.prems(3) x u by simp
  from Cons.IH [OF _ _ this] a show ?case by simp
qed

lemma monitor_ok_cong:
  "processMetrics m' = processMetrics m \<Longrightarrow> monitor_ok m' h = monitor_ok m h"
  by (simp add: monitor_ok_def)

lemma monitor_ok_NewMonitor: "monitor_ok NewMonitor h"
  by (simp add: monitor_ok_def NewMonitor_def)

lemma NewProcessMetrics_monitor_ok:
  assumes ok: "monitor_ok m h" and n: "NewProcessMetrics capacity h = (p, h')"
  shows "monitor_ok (m\<lparr>processMetrics := (processMetrics m)(pid \<mapsto> p)\<rparr>) h'"
proof -
  let ?m = "m\<lparr>processMetrics := (processMetrics m)(pid \<mapsto> p)\<rparr>"
  note hp = NewProcessMetrics_heap [OF n]
  have fp: "pm_fields (structs h' p) =
       map (\<lambda>i. \<lparr>ptr = narrays h + i, off = 0, len = 0, cap = capacity\<rparr>) [0..<9]"
    by (rule NewProcessMetrics_fields [OF n])
  have newp: "narrays h \<le> ptr t \<and> ptr t < narrays h'" if "t \<in> set (pm_fields (structs h' p))" for t
    using that hp unfolding fp by auto
  have st: "structs h' p' = structs h p'" if "p' < nstructs h" for p' using hp that by simp
  have al: "p' < nstructs h" "\<And>t. t \<in> set (pm_fields (structs h p')) \<Longrightarrow> ptr t < narrays h"
    if "processMetrics m pid' = Some p'" for pid' p'
    using ok that by (auto simp: monitor_ok_def)
  have cases: "p' = p \<or> (p' < nstructs h \<and> processMetrics m pid' = Some p')"
    if "processMetrics ?m pid' = Some p'" for pid' p'
    using that al(1) by (auto split: if_splits)
  show "monitor_ok ?m h'"
    unfolding monitor_ok_def
  proof (intro allI impI conjI ballI)
    fix pid' p' assume a: "processMetrics ?m pid' = Some p'"
    show "p' < nstructs h'" using cases [OF a] hp by auto
    fix t assume t: "t \<in> set (pm_fields (structs h' p'))"
    from cases [OF a] show "ptr t < narrays h'"
    proof
      assume "p' = p" then show ?thesis using newp t by simp
    next
      assume b: "p' < nstructs h \<and> processMetrics m pid' = Some p'"
      then have "ptr t < narrays h" using al(2) [of pid' p' t] t st by simp
      then show ?thesis using hp by simp
    qed
  qed
qed

lemma AddMetric_monitor_ok:
  assumes ok: "monitor_ok m h" and p: "processMetrics m pid = Some p"
  shows "monitor_ok m (AddMetric rt p pt h)"
proof -
  let ?h = "AddMetric rt p pt h"
  note hp = AddMetric_heap [of rt p pt h]
  have st: "structs ?h p' = structs h p'" if "p' \<noteq> p" for p' using hp that by simp
  have mv: "ptr t \<in> ptr ` set (pm_fields (structs h p)) \<or> (narrays h \<le> ptr t \<and> ptr t < narrays ?h)"
    if "t \<in> set (pm_fields (structs ?h p))" for t
    using AddMetric_moved [of h rt p pt] that by (auto simp: list_all_iff moved_def)
  have al: "p' < nstructs h" "\<And>t. t \<in> set (pm_fields (structs h p')) \<Longrightarrow> ptr t < narrays h"
    if "processMetrics m pid' = Some p'" for pid' p'
    using ok that by (auto simp: monitor_ok_def)
  have al': "ptr t < narrays ?h" if "processMetrics m pid' = Some p'"
    "t \<in> set (pm_fields (structs ?h p'))" for pid' p' t
  proof (cases "p' = p")
    case True
    from mv [of t] that(2) True
    have "ptr t \<in> ptr ` set (pm_fields (structs h p)) \<or> (narrays h \<le> ptr t \<and> ptr t < narrays ?h)"
      by simp
    then show ?thesis
    proof
      assume "ptr t \<in> ptr ` set (pm_fields (structs h p))"
      then obtain u where "u \<in> set (pm_fields (structs h p))" "ptr t = ptr u" by auto
      then have "ptr t < narrays h" using al(2) [OF p] by simp
      then show ?thesis using hp by simp
    qed simp
  next
    case False
    have "t \<in> set (pm_fields (structs h p'))" using st [OF False] that(2) by simp
    then have "ptr t < narrays h" using al(2) [OF that(1)] by simp
    then show ?thesis using hp by simp
  qed
  show "monitor_ok m ?h"
    unfolding monitor_ok_def
  proof (intro allI impI conjI ballI)
    fix pid' p' assume a: "processMetrics m pid' = Some p'"
    show "p' < nstructs ?h" using al(1) [OF a] hp by simp
    fix t assume "t \<in> set (pm_fields (structs ?h p'))"
    then show "ptr t < narrays ?h" by (rule al' [OF a])
  qed
qed

lemma EnsureProcessMetrics_monitor_ok:
  "monitor_ok m h \<Longrightarrow> EnsureProcessMetrics pid m h = (m', h') \<Longrightarrow> monitor_ok m' h'"
  by (cases "processMetrics m pid")
    (auto simp: EnsureProcessMetrics_def Let_def split: prod.splits
      dest: NewProcessMetrics_monitor_ok)

lemma update_monitor_ok:
  assumes ok: "monitor_ok m h"
    and u: "updateProcessTimeSeriesMetrics rt info t m h = (m', h')"
  shows "monitor_ok m' h'"
proof (cases "processMetrics m (PID info)")
  case None
  obtain p h1 where n: "NewProcessMetrics (metricsCapacity m) h = (p, h1)"
    by (cases "NewProcessMetrics (metricsCapacity m) h")
  let ?m = "m\<lparr>processMetrics := (processMetrics m)(PID info \<mapsto> p)\<rparr>"
  note a = NewProcessMetrics_monitor_ok [OF ok n, of "PID info"]
  have pp: "processMetrics ?m (PID info) = Some p" by simp
  from u None n have e: "m' = ?m" "\<exists>pt. h' = AddMetric rt p pt h1"
    by (auto simp: updateProcessTimeSeriesMetrics_def Let_def)
  then obtain pt where h': "h' = AddMetric rt p pt h1" by blast
  from AddMetric_monitor_ok [OF a pp, of rt pt] e(1) h'
  show ?thesis by simp
next
  case (Some p)
  from u Some have e: "m' = m" "\<exists>pt. h' = AddMetric rt p pt h"
    by (auto simp: updateProcessTimeSeriesMetrics_def Let_def)
  then obtain pt where h': "h' = AddMetric rt p pt h" by blast
  from AddMetric_monitor_ok [OF ok Some, of rt pt] e(1) h'
  show ?thesis by simp
qed

lemma CleanupOldMetrics_monitor_ok: "monitor_ok m h \<Longrightarrow> monitor_ok (CleanupOldMetrics m) h"
  by (auto simp: monitor_ok_def CleanupOldMetrics_def split: if_splits)

lemma getDetailedProcessInfo_processMetrics:
  "getDetailedProcessInfo proc rd m = (r, m') \<Longrightarrow>
     processMetrics m' = processMetrics m \<and> metricsCapacity m' = metricsCapacity m"
  by (auto simp: getDetailedProcessInfo_def Let_def split: sum.splits option.splits prod.splits)

lemma GetProcessMetrics_None:
  "processMetrics m pid = None \<Longrightarrow> GetProcessMetrics rt pid m h = (None, h)"
  by (simp add: GetProcessMetrics_def)

text \<open>
  Claim C9 (the value of a read does not change). In a registry whose objects are
  allocated, let \<^verbatim>\<open>GetProcessMetrics\<close> return the object \<open>v\<close>. Its nine sequences are
  those of the stored series at the time of the read, and they stay the same through any
  later sequence of time-series updates (appends to the series of this or of any other
  identifier): the copy shares no array and no object with the registry.
\<close>

theorem read_is_independent_of_later_appends:
  assumes "monitor_ok m h"
    and "GetProcessMetrics rt pid m h = (Some v, h1)"
    and "updates rt us m h1 = (m2, h2)"
  shows "series h2 v = series h1 v \<and>
         map_option (series h) (processMetrics m pid) = Some (series h1 v)"
proof -
  obtain p where p: "processMetrics m pid = Some p"
    using assms(2) by (cases "processMetrics m pid") (simp_all add: GetProcessMetrics_None)
  note g = GetProcessMetrics_detached [OF assms(1) p assms(2)]
  have v: "v = nstructs h" using g(1) by simp
  from updates_detached [OF g(2) g(3) assms(3)] g(4) p v
  show ?thesis by simp
qed

lemma update_present:
  "processMetrics m (PID info) = Some p \<Longrightarrow>
     updateProcessTimeSeriesMetrics rt info t m h = (m, AddMetric rt p (info_point info t) h)"
  by (simp add: updateProcessTimeSeriesMetrics_def info_point_def)

lemma update_absent:
  "processMetrics m (PID info) = None \<Longrightarrow> NewProcessMetrics (metricsCapacity m) h = (p, h') \<Longrightarrow>
     updateProcessTimeSeriesMetrics rt info t m h =
       (m\<lparr>processMetrics := (processMetrics m)(PID info \<mapsto> p)\<rparr>,
        AddMetric rt p (info_point info t) h')"
  by (simp add: updateProcessTimeSeriesMetrics_def info_point_def)

lemma pm_ok_frame:
  assumes "pm_ok h s" "\<And>a. a < narrays h \<Longrightarrow> arrays h' a = arrays h a" "narrays h \<le> narrays h'"
  shows "pm_ok h' s" "map (contents h') (pm_fields s) = map (contents h) (pm_fields s)"
proof -
  have "slice_ok h' t \<and> contents h' t = contents h t" if "t \<in> set (pm_fields s)" for t
  proof (rule slice_frame)
    show ok: "slice_ok h t" using assms(1) that by (simp add: pm_ok_def list_all_iff)
    then show "arrays h' (ptr t) = arrays h (ptr t)" using assms(2) by (simp add: slice_ok_def)
    show "narrays h \<le> narrays h'" by (rule assms(3))
  qed
  then show "pm_ok h' s" "map (contents h') (pm_fields s) = map (contents h) (pm_fields s)"
    using assms(1) by (simp_all add: pm_ok_def list_all_iff)
qed

lemma GetProcessMetrics_frame:
  assumes p: "processMetrics m pid = Some p" and g: "GetProcessMetrics rt pid m h = (r, h1)"
  shows "q < nstructs h \<Longrightarrow> structs h1 q = structs h q"
    "a < narrays h \<Longrightarrow> arrays h1 a = arrays h a" "narrays h \<le> narrays h1"
proof -
  let ?l = "zip zeros (pm_fields (structs h p))"
  obtain ss h' where c: "copy_each rt ?l h = (ss, h')" by (cases "copy_each rt ?l h")
  note hp = copy_each_heap [OF c]
  from g have h1: "h1 = h'\<lparr>structs := (structs h')(nstructs h := of_fields ss), nstructs := Suc (nstructs h)\<rparr>"
    by (simp add: GetProcessMetrics_unfold [OF p] c hp Let_def)
  show "structs h1 q = structs h q" if "q < nstructs h" using that by (simp add: h1 hp)
  show "arrays h1 a = arrays h a" if "a < narrays h"
    using copy_each_arrays [OF c that] by (simp add: h1)
  show "narrays h \<le> narrays h1" using hp by (simp add: h1)
qed

lemma new_series_ok:
  assumes "NewProcessMetrics capacity h = (p, h1)"
  shows "series (add_points rt p pts h1) p = columns pts"
    "pm_ok (add_points rt p pts h1) (structs (add_points rt p pts h1) p)"
  using add_points_series [OF NewProcessMetrics_ok [OF assms] NewProcessMetrics_series [OF assms]]
  by simp_all

lemma series_snoc:
  assumes "pm_ok h (structs h p)" "series h p = columns pts"
  shows "series (AddMetric rt p pt h) p = columns (pts @ [pt])"
  using AddMetric_series(1) [OF assms(1), of rt pt] assms(2) by (simp add: columns_snoc)

text \<open>
  Witness: one point is stored for identifier 7, the series is read (object 2), a second
  point is appended. The stored series (object 1) then holds two points, the value read
  still holds the first one only.
\<close>

theorem read_is_independent_of_later_appends_witness:
  "(case updateProcessTimeSeriesMetrics ref_runtime info7 5 NewMonitor empty_heap of (m, h) \<Rightarrow>
     case GetProcessMetrics ref_runtime 7 m h of (r, h1) \<Rightarrow>
       case updates ref_runtime [(info7, 6)] m h1 of (m2, h2) \<Rightarrow>
         r = Some 2 \<and> series h1 2 = columns [info_point info7 5] \<and>
         series h2 1 = columns [info_point info7 5, info_point info7 6] \<and>
         series h2 2 = columns [info_point info7 5])"
proof -
  have pid: "PID info7 = 7" by (simp add: info7_def)
  obtain p h0 where n: "NewProcessMetrics (metricsCapacity NewMonitor) empty_heap = (p, h0)"
    by (cases "NewProcessMetrics (metricsCapacity NewMonitor) empty_heap")
  have p1: "p = 1" "nstructs h0 = 2"
    using NewProcessMetrics_heap [OF n] by (simp_all add: empty_heap_def)
  define m where "m = NewMonitor\<lparr>processMetrics := (processMetrics NewMonitor)(7 \<mapsto> 1)\<rparr>"
  define h where "h = AddMetric ref_runtime 1 (info_point info7 5) h0"
  have u: "updateProcessTimeSeriesMetrics ref_runtime info7 5 NewMonitor empty_heap = (m, h)"
    using update_absent [of NewMonitor info7 empty_heap p h0 ref_runtime 5] n p1 pid
    by (simp add: m_def h_def NewMonitor_def)
  have pm: "processMetrics m 7 = Some 1" by (simp add: m_def)
  have s1: "series h 1 = columns [info_point info7 5]" "pm_ok h (structs h 1)"
    using new_series_ok [OF n, of ref_runtime "[info_point info7 5]"] p1
    by (simp_all add: h_def add_points_def)
  have nh: "nstructs h = 2" using AddMetric_heap [of ref_runtime 1 "info_point info7 5" h0] p1
    by (simp add: h_def)
  have ok: "monitor_ok m h" by (rule update_monitor_ok [OF monitor_ok_NewMonitor u])
  obtain r h1 where g: "GetProcessMetrics ref_runtime 7 m h = (r, h1)"
    by (cases "GetProcessMetrics ref_runtime 7 m h")
  note gd = GetProcessMetrics_detached [OF ok pm g]
  note gf = GetProcessMetrics_frame [OF pm g]
  have r: "r = Some 2" using gd(1) nh by simp
  have c: "series h1 2 = columns [info_point info7 5]" using gd(4) nh s1(1) by simp
  have st: "structs h1 1 = structs h 1" using gf(1) [of 1] nh by simp
  have s1': "pm_ok h1 (structs h1 1)" "series h1 1 = columns [info_point info7 5]"
  proof -
    note f = pm_ok_frame [OF s1(2) gf(2) gf(3)]
    show "pm_ok h1 (structs h1 1)" using f(1) st by simp
    have "series h1 1 = map (contents h1) (pm_fields (structs h 1))" by (simp only: series_def st)
    also have "\<dots> = series h 1" unfolding series_def by (rule f(2))
    finally show "series h1 1 = columns [info_point info7 5]" using s1(1) by simp
  qed
  define h2 where "h2 = AddMetric ref_runtime 1 (info_point info7 6) h1"
  have us: "updates ref_runtime [(info7, 6)] m h1 = (m, h2)"
    using update_present [of m info7 1 ref_runtime 6 h1] pm pid by (simp add: h2_def)
  have s2: "series h2 1 = columns [info_point info7 5, info_point info7 6]"
    using series_snoc [OF s1'] by (simp add: h2_def)
  have g': "GetProcessMetrics ref_runtime 7 m h = (Some 2, h1)" using g r by simp
  from read_is_independent_of_later_appends [OF ok g' us] c s2 r
  show ?thesis by (simp add: u g us del: updates.simps)
qed

lemma getBasicProcessInfo_Inr: "\<exists>info. getBasicProcessInfo proc rd = Inr info \<and>
  DiskReadRate info = 0 \<and> DiskWriteRate info = 0 \<and> DiskReadPerc info = 0 \<and> DiskWritePerc info = 0"
  by (simp add: getBasicProcessInfo_def zero_ProcessInfo_def Let_def split: option.splits)

lemma diskRates_fields:
  "DiskReadRate (diskRates b now io lastIO info) =
     (if 0 < deltaSeconds now lastIO
      then (real (unat (fst io - io_ReadBytes lastIO)) / 1024) / deltaSeconds now lastIO
      else DiskReadRate info)"
  "DiskWriteRate (diskRates b now io lastIO info) =
     (if 0 < deltaSeconds now lastIO
      then (real (unat (snd io - io_WriteBytes lastIO)) / 1024) / deltaSeconds now lastIO
      else DiskWriteRate info)"
  "DiskReadPerc (diskRates b now io lastIO info) =
     (if 0 < deltaSeconds now lastIO
      then (if b > 0 then (DiskReadRate (diskRates b now io lastIO info) / b) * 100
            else min (DiskReadRate (diskRates b now io lastIO info) / 1024) 100)
      else DiskReadPerc info)"
  "DiskWritePerc (diskRates b now io lastIO info) =
     (if 0 < deltaSeconds now lastIO
      then (if b > 0 then (DiskWriteRate (diskRates b now io lastIO info) / b) * 100
            else min (DiskWriteRate (diskRates b now io lastIO info) / 1024) 100)
      else DiskWritePerc info)"
  by (simp_all add: diskRates_def deltaSeconds_def Let_def)

lemma getDetailedProcessInfo_disk:
  assumes "getDetailedProcessInfo proc rd m = (r, m')"
  shows "\<exists>info. r = Inr info \<and>
     disk_fields info =
       (case rd_IOCounters rd of
          None \<Rightarrow> (0, 0, 0, 0)
        | Some io \<Rightarrow>
           (case lastProcessIO m (Pid proc) of
              None \<Rightarrow> (0, 0, 0, 0)
            | Some lastIO \<Rightarrow> disk_fields (diskRates (systemIOTotal m) (rd_now rd) io lastIO zero_ProcessInfo)))"
proof -
  obtain b where b: "getBasicProcessInfo proc rd = Inr b"
    "DiskReadRate b = 0" "DiskWriteRate b = 0" "DiskReadPerc b = 0" "DiskWritePerc b = 0"
    using getBasicProcessInfo_Inr by blast
  have z: "DiskReadRate zero_ProcessInfo = 0" "DiskWriteRate zero_ProcessInfo = 0"
    "DiskReadPerc zero_ProcessInfo = 0" "DiskWritePerc zero_ProcessInfo = 0"
    by (simp_all add: zero_ProcessInfo_def)
  show ?thesis
    using assms b(2-) z
    by (auto simp: getDetailedProcessInfo_def b(1) Let_def disk_fields_def diskRates_fields
        split: option.splits)
qed

lemma disk_fields_simps:
  "disk_fields info = (a, b, c, d) \<longleftrightarrow>
     DiskReadRate info = a \<and> DiskWriteRate info = b \<and> DiskReadPerc info = c \<and> DiskWritePerc info = d"
  by (auto simp: disk_fields_def)

text \<open>
  Claim C2 (disk rates). Let a detailed read see the I/O counters \<open>readBytes\<close> and
  \<open>writeBytes\<close>. If the cache holds an entry \<open>lastIO\<close> for the process and
  \<open>deltaSeconds\<close>, the seconds from its timestamp to now, is positive, the read rate is
  \<open>((readBytes - lastReadBytes) / 1024) / deltaSeconds\<close> and the write rate likewise; the
  difference is the one of \<^verbatim>\<open>uint64\<close>, which is the difference of the two numbers when
  the counter has not gone backwards. If there is no entry, or \<open>deltaSeconds \<le> 0\<close>, both
  rates stay zero.
\<close>

theorem disk_rate_formula:
  assumes "getDetailedProcessInfo proc rd m = (Inr info, m')"
    and "rd_IOCounters rd = Some (readBytes, writeBytes)"
  shows "(\<forall>lastIO. lastProcessIO m (Pid proc) = Some lastIO \<and> 0 < deltaSeconds (rd_now rd) lastIO \<longrightarrow>
            DiskReadRate info =
              (real (unat (readBytes - io_ReadBytes lastIO)) / 1024) / deltaSeconds (rd_now rd) lastIO \<and>
            DiskWriteRate info =
              (real (unat (writeBytes - io_WriteBytes lastIO)) / 1024) / deltaSeconds (rd_now rd) lastIO \<and>
            (io_ReadBytes lastIO \<le> readBytes \<longrightarrow>
               DiskReadRate info =
                 ((real (unat readBytes) - real (unat (io_ReadBytes lastIO))) / 1024) /
                 deltaSeconds (rd_now rd) lastIO) \<and>
            (io_WriteBytes lastIO \<le> writeBytes \<longrightarrow>
               DiskWriteRate info =
                 ((real (unat writeBytes) - real (unat (io_WriteBytes lastIO))) / 1024) /
                 deltaSeconds (rd_now rd) lastIO)) \<and>
         (lastProcessIO m (Pid proc) = None \<or>
          (\<exists>lastIO. lastProcessIO m (Pid proc) = Some lastIO \<and> deltaSeconds (rd_now rd) lastIO \<le> 0) \<longrightarrow>
            DiskReadRate info = 0 \<and> DiskWriteRate info = 0)"
proof (cases "lastProcessIO m (Pid proc)")
  case None
  with getDetailedProcessInfo_disk [OF assms(1)] assms(2)
  show ?thesis by (auto simp: disk_fields_def)
next
  case (Some lastIO)
  let ?d = "deltaSeconds (rd_now rd) lastIO"
  have sub: "real (unat (a - b)) = real (unat a) - real (unat b)" if "b \<le> a" for a b :: uint64
  proof -
    have "unat (a - b) = unat a - unat b" "unat b \<le> unat a"
      using that by (simp_all add: unat_sub word_le_nat_alt)
    then show ?thesis by (simp only: of_nat_diff)
  qed
  from getDetailedProcessInfo_disk [OF assms(1)] assms(2) Some
  have "disk_fields info =
      disk_fields (diskRates (systemIOTotal m) (rd_now rd) (readBytes, writeBytes) lastIO zero_ProcessInfo)"
    by auto
  then have r: "DiskReadRate info =
        (if 0 < ?d then (real (unat (readBytes - io_ReadBytes lastIO)) / 1024) / ?d else 0)"
      "DiskWriteRate info =
        (if 0 < ?d then (real (unat (writeBytes - io_WriteBytes lastIO)) / 1024) / ?d else 0)"
    by (simp_all only: disk_fields_def prod.inject diskRates_fields fst_conv snd_conv)
      (simp_all add: zero_ProcessInfo_def)
  show ?thesis
    using r Some sub [of "io_ReadBytes lastIO" readBytes] sub [of "io_WriteBytes lastIO" writeBytes]
    by auto
qed

text \<open>
  Witness: 1024 bytes read at time 0 and 2048 at one second give 1 KB/s (and 3 KB/s
  written); no cache entry gives zero; an entry with the same timestamp gives zero.
\<close>

theorem disk_rate_formula_witness:
  "(case getDetailedProcessInfo (Process 1) (rd_io 2048 4096 1000000000) (with_lastIO 0 1024 1024 0) of
      (r, m') \<Rightarrow> map_sum id (\<lambda>info. (DiskReadRate info, DiskWriteRate info)) r = Inr (1, 3)) \<and>
   (case getDetailedProcessInfo (Process 1) (rd_io 2048 4096 1000000000) NewMonitor of
      (r, m') \<Rightarrow> map_sum id (\<lambda>info. (DiskReadRate info, DiskWriteRate info)) r = Inr (0, 0)) \<and>
   (case getDetailedProcessInfo (Process 1) (rd_io 2048 4096 5) (with_lastIO 0 1024 1024 5) of
      (r, m') \<Rightarrow> map_sum id (\<lambda>info. (DiskReadRate info, DiskWriteRate info)) r = Inr (0, 0))"
proof -
  have d1: "deltaSeconds 1000000000 \<lparr>io_ReadBytes = 1024, io_WriteBytes = 1024, io_Timestamp = 0\<rparr> = 1"
    by (simp add: deltaSeconds_def Seconds_def time_Sub_def)
  have d2: "deltaSeconds 5 \<lparr>io_ReadBytes = 1024, io_WriteBytes = 1024, io_Timestamp = 5\<rparr> = 0"
    by (simp add: deltaSeconds_def Seconds_def time_Sub_def)
  obtain i1 m1 where g1: "getDetailedProcessInfo (Process 1) (rd_io 2048 4096 1000000000) (with_lastIO 0 1024 1024 0) = (Inr i1, m1)"
    using getDetailedProcessInfo_disk
    by (cases "getDetailedProcessInfo (Process 1) (rd_io 2048 4096 1000000000) (with_lastIO 0 1024 1024 0)") blast
  obtain i2 m2 where g2: "getDetailedProcessInfo (Process 1) (rd_io 2048 4096 1000000000) NewMonitor = (Inr i2, m2)"
    using getDetailedProcessInfo_disk
    by (cases "getDetailedProcessInfo (Process 1) (rd_io 2048 4096 1000000000) NewMonitor") blast
  obtain i3 m3 where g3: "getDetailedProcessInfo (Process 1) (rd_io 2048 4096 5) (with_lastIO 0 1024 1024 5) = (Inr i3, m3)"
    using getDetailedProcessInfo_disk
    by (cases "getDetailedProcessInfo (Process 1) (rd_io 2048 4096 5) (with_lastIO 0 1024 1024 5)") blast
  have io: "rd_IOCounters (rd_io 2048 4096 t) = Some (2048, 4096)" "rd_now (rd_io 2048 4096 t) = t" for t
    by (simp_all add: rd_io_def)
  have l: "lastProcessIO (with_lastIO 0 1024 1024 t) 1 =
      Some \<lparr>io_ReadBytes = 1024, io_WriteBytes = 1024, io_Timestamp = t\<rparr>"
    "lastProcessIO NewMonitor 1 = None" for t
    by (simp_all add: with_lastIO_def NewMonitor_def)
  from disk_rate_formula [OF g1 io(1)] disk_rate_formula [OF g2 io(1)] disk_rate_formula [OF g3 io(1)]
  show ?thesis
    by (simp add: g1 g2 g3 io l d1 d2)
qed

lemma unat_wrap:
  fixes a b :: uint64
  assumes "a < b"
  shows "real (unat (a - b)) = 2 ^ 64 - (real (unat b) - real (unat a))"
    "0 < real (unat (a - b))"
proof -
  have lt: "unat a < unat b" using assms by (simp add: word_less_nat_alt)
  have bd: "unat b < 2 ^ 64" using unsigned_less [of b, where 'a = nat] by simp
  have e: "unat (a - b) = unat a + 2 ^ 64 - unat b"
    using lt by (simp add: unat_sub_if')
  then have "real (unat (a - b)) = real (unat a + 2 ^ 64 - unat b)" by (simp only:)
  also have "\<dots> = real (unat a) + 2 ^ 64 - real (unat b)"
    using bd by simp
  finally show "real (unat (a - b)) = 2 ^ 64 - (real (unat b) - real (unat a))" by simp
  have "0 < unat a + 2 ^ 64 - unat b" using bd by linarith
  then have "0 < unat (a - b)" by (simp only: e)
  then show "0 < real (unat (a - b))" by (simp only: of_nat_0_less_iff)
qed

lemma getDetailedProcessInfo_rates:
  assumes "getDetailedProcessInfo proc rd m = (Inr info, m')"
    and "rd_IOCounters rd = Some (readBytes, writeBytes)"
    and "lastProcessIO m (Pid proc) = Some lastIO"
    and "0 < deltaSeconds (rd_now rd) lastIO"
  shows "DiskReadRate info =
           (real (unat (readBytes - io_ReadBytes lastIO)) / 1024) / deltaSeconds (rd_now rd) lastIO"
    "DiskWriteRate info =
           (real (unat (writeBytes - io_WriteBytes lastIO)) / 1024) / deltaSeconds (rd_now rd) lastIO"
proof -
  from getDetailedProcessInfo_disk [OF assms(1)] assms(2,3)
  have "disk_fields info =
      disk_fields (diskRates (systemIOTotal m) (rd_now rd) (readBytes, writeBytes) lastIO zero_ProcessInfo)"
    by auto
  then show "DiskReadRate info =
           (real (unat (readBytes - io_ReadBytes lastIO)) / 1024) / deltaSeconds (rd_now rd) lastIO"
    "DiskWriteRate info =
           (real (unat (writeBytes - io_WriteBytes lastIO)) / 1024) / deltaSeconds (rd_now rd) lastIO"
    using assms(4)
    by (simp_all only: disk_fields_def prod.inject diskRates_fields fst_conv snd_conv if_True)
qed

lemma wrapped_rate:
  fixes a b :: uint64
  assumes "a < b" "0 < d" "r = (real (unat (a - b)) / 1024) / d"
  shows "r = ((2 ^ 64 - (real (unat b) - real (unat a))) / 1024) / d \<and> 0 < r \<and>
     (real (unat b) - real (unat a) \<le> 2 ^ 63 \<longrightarrow> (2 ^ 63 / 1024) / d \<le> r)"
proof -
  note w = unat_wrap [OF assms(1)]
  have 1: "r = ((2 ^ 64 - (real (unat b) - real (unat a))) / 1024) / d"
    using assms(3) w(1) by (simp only:)
  have 2: "0 < r" using assms(2,3) w(2) by simp
  have 3: "(2 ^ 63 / 1024) / d \<le> r" if "real (unat b) - real (unat a) \<le> 2 ^ 63"
  proof -
    have A: "(2::real) ^ 63 \<le> 2 ^ 64 - (real (unat b) - real (unat a))" using that by simp
    have B: "(2::real) ^ 63 / 1024 \<le> (2 ^ 64 - (real (unat b) - real (unat a))) / 1024"
      by (rule divide_right_mono [OF A]) simp
    have "((2::real) ^ 63 / 1024) / d \<le> ((2 ^ 64 - (real (unat b) - real (unat a))) / 1024) / d"
      by (rule divide_right_mono [OF B]) (use assms(2) in simp)
    then show ?thesis by (simp only: 1)
  qed
  show ?thesis using 1 2 3 by blast
qed

text \<open>
  Claim C10 (a counter that went backwards). When the rate is computed and the counter
  read is strictly below the cached one, the byte difference is
  \<open>2 ^ 64 - (last - current)\<close>: the rate is positive, never zero or negative, and at
  least \<open>2 ^ 63\<close> bytes over the interval whenever the counter fell by at most
  \<open>2 ^ 63\<close>.
\<close>

theorem counter_reset_wraps:
  assumes "getDetailedProcessInfo proc rd m = (Inr info, m')"
    and "rd_IOCounters rd = Some (readBytes, writeBytes)"
    and "lastProcessIO m (Pid proc) = Some lastIO"
    and "0 < deltaSeconds (rd_now rd) lastIO"
  shows "(readBytes < io_ReadBytes lastIO \<longrightarrow>
            DiskReadRate info =
              ((2 ^ 64 - (real (unat (io_ReadBytes lastIO)) - real (unat readBytes))) / 1024) /
              deltaSeconds (rd_now rd) lastIO \<and>
            0 < DiskReadRate info \<and>
            (real (unat (io_ReadBytes lastIO)) - real (unat readBytes) \<le> 2 ^ 63 \<longrightarrow>
               (2 ^ 63 / 1024) / deltaSeconds (rd_now rd) lastIO \<le> DiskReadRate info)) \<and>
         (writeBytes < io_WriteBytes lastIO \<longrightarrow>
            DiskWriteRate info =
              ((2 ^ 64 - (real (unat (io_WriteBytes lastIO)) - real (unat writeBytes))) / 1024) /
              deltaSeconds (rd_now rd) lastIO \<and>
            0 < DiskWriteRate info \<and>
            (real (unat (io_WriteBytes lastIO)) - real (unat writeBytes) \<le> 2 ^ 63 \<longrightarrow>
               (2 ^ 63 / 1024) / deltaSeconds (rd_now rd) lastIO \<le> DiskWriteRate info))"
  using wrapped_rate [OF _ assms(4) getDetailedProcessInfo_rates(1) [OF assms]]
    wrapped_rate [OF _ assms(4) getDetailedProcessInfo_rates(2) [OF assms]]
  by blast

text \<open>
  Witness: the read counter falls from 2048 to 1024 in one second, the write counter
  from 1 to 0; the rates are \<open>2 ^ 54 - 1\<close> KB/s and \<open>(2 ^ 64 - 1) / 1024\<close> KB/s.
\<close>

theorem counter_reset_wraps_witness:
  "(case getDetailedProcessInfo (Process 1) (rd_io 1024 0 1000000000) (with_lastIO 102400 2048 1 0) of
      (r, m') \<Rightarrow> map_sum id (\<lambda>info. (DiskReadRate info, DiskWriteRate info)) r =
        Inr (18014398509481983, 18446744073709551615 / 1024))"
proof -
  let ?last = "\<lparr>io_ReadBytes = 2048, io_WriteBytes = 1, io_Timestamp = 0\<rparr>"
  have d: "deltaSeconds 1000000000 ?last = 1"
    by (simp add: deltaSeconds_def Seconds_def time_Sub_def)
  obtain i1 m1 where g: "getDetailedProcessInfo (Process 1) (rd_io 1024 0 1000000000) (with_lastIO 102400 2048 1 0) = (Inr i1, m1)"
    using getDetailedProcessInfo_disk
    by (cases "getDetailedProcessInfo (Process 1) (rd_io 1024 0 1000000000) (with_lastIO 102400 2048 1 0)") blast
  have io: "rd_IOCounters (rd_io 1024 0 1000000000) = Some (1024, 0)"
    and now: "rd_now (rd_io 1024 0 1000000000) = 1000000000"
    by (simp_all add: rd_io_def)
  have l: "lastProcessIO (with_lastIO 102400 2048 1 0) (Pid (Process 1)) = Some ?last"
    by (simp add: with_lastIO_def NewMonitor_def)
  have d': "0 < deltaSeconds (rd_now (rd_io 1024 0 1000000000)) ?last" by (simp add: now d)
  from counter_reset_wraps [OF g io l d']
  show ?thesis by (simp add: g now d)
qed

lemma diskRates_percentages:
  assumes "disk_fields info = disk_fields (diskRates b now io lastIO zero_ProcessInfo)"
  shows "DiskReadPerc info =
           (if b > 0 then (DiskReadRate info / b) * 100 else min (DiskReadRate info / 1024) 100)"
    "DiskWritePerc info =
           (if b > 0 then (DiskWriteRate info / b) * 100 else min (DiskWriteRate info / 1024) 100)"
proof -
  have e: "DiskReadRate info = DiskReadRate (diskRates b now io lastIO zero_ProcessInfo)"
    "DiskWriteRate info = DiskWriteRate (diskRates b now io lastIO zero_ProcessInfo)"
    "DiskReadPerc info = DiskReadPerc (diskRates b now io lastIO zero_ProcessInfo)"
    "DiskWritePerc info = DiskWritePerc (diskRates b now io lastIO zero_ProcessInfo)"
    using assms by (simp_all add: disk_fields_def)
  show "DiskReadPerc info =
           (if b > 0 then (DiskReadRate info / b) * 100 else min (DiskReadRate info / 1024) 100)"
    unfolding e
    by (cases "0 < deltaSeconds now lastIO")
      (simp_all add: diskRates_def deltaSeconds_def Let_def zero_ProcessInfo_def)
  show "DiskWritePerc info =
           (if b > 0 then (DiskWriteRate info / b) * 100 else min (DiskWriteRate info / 1024) 100)"
    unfolding e
    by (cases "0 < deltaSeconds now lastIO")
      (simp_all add: diskRates_def deltaSeconds_def Let_def zero_ProcessInfo_def)
qed

lemma getDetailedProcessInfo_perc:
  assumes "getDetailedProcessInfo proc rd m = (Inr info, m')"
  shows "DiskReadPerc info =
           (if systemIOTotal m > 0 then (DiskReadRate info / systemIOTotal m) * 100
            else min (DiskReadRate info / 1024) 100)"
    "DiskWritePerc info =
           (if systemIOTotal m > 0 then (DiskWriteRate info / systemIOTotal m) * 100
            else min (DiskWriteRate info / 1024) 100)"
proof -
  consider (zero) "disk_fields info = (0, 0, 0, 0)"
    | (rates) io lastIO where "disk_fields info =
        disk_fields (diskRates (systemIOTotal m) (rd_now rd) io lastIO zero_ProcessInfo)"
    using getDetailedProcessInfo_disk [OF assms]
    by (auto split: option.splits)
  then have "DiskReadPerc info =
           (if systemIOTotal m > 0 then (DiskReadRate info / systemIOTotal m) * 100
            else min (DiskReadRate info / 1024) 100) \<and>
    DiskWritePerc info =
           (if systemIOTotal m > 0 then (DiskWriteRate info / systemIOTotal m) * 100
            else min (DiskWriteRate info / 1024) 100)"
  proof cases
    case zero
    then show ?thesis by (simp add: disk_fields_def)
  next
    case rates
    from diskRates_percentages [OF rates] show ?thesis by simp
  qed
  then show "DiskReadPerc info =
           (if systemIOTotal m > 0 then (DiskReadRate info / systemIOTotal m) * 100
            else min (DiskReadRate info / 1024) 100)"
    "DiskWritePerc info =
           (if systemIOTotal m > 0 then (DiskWriteRate info / systemIOTotal m) * 100
            else min (DiskWriteRate info / 1024) 100)"
    by simp_all
qed

text \<open>
  Claim C7 (disk percentages). For a budget that is not negative (the registry only ever
  holds 0 or the value of \<^verbatim>\<open>calculateSystemIOTotal\<close>): with a zero budget the percentage
  is \<open>min (rate / 1024) 100\<close>, so a rate of 2048 KB/s gives 2; with any other budget it is
  \<open>rate / budget * 100\<close>.
\<close>

theorem disk_percentage:
  assumes "getDetailedProcessInfo proc rd m = (Inr info, m')"
    and "0 \<le> systemIOTotal m"
  shows "(systemIOTotal m = 0 \<longrightarrow>
            DiskReadPerc info = min (DiskReadRate info / 1024) 100 \<and>
            DiskWritePerc info = min (DiskWriteRate info / 1024) 100 \<and>
            (DiskReadRate info = 2048 \<longrightarrow> DiskReadPerc info = 2)) \<and>
         (systemIOTotal m \<noteq> 0 \<longrightarrow>
            DiskReadPerc info = DiskReadRate info / systemIOTotal m * 100 \<and>
            DiskWritePerc info = DiskWriteRate info / systemIOTotal m * 100)"
  using getDetailedProcessInfo_perc [OF assms(1)] assms(2) by auto

text \<open>
  Witness: 2097152 bytes in one second under a zero budget: 2048 KB/s, 2 percent;
  1048576 bytes in one second under the budget of \<^verbatim>\<open>calculateSystemIOTotal\<close>: 1024 KB/s,
  1 percent.
\<close>

theorem disk_percentage_witness:
  "(case getDetailedProcessInfo (Process 1) (rd_io 2097152 0 1000000000) (with_lastIO 0 0 0 0) of
      (r, m') \<Rightarrow> map_sum id (\<lambda>info. (DiskReadRate info, DiskReadPerc info)) r = Inr (2048, 2)) \<and>
   (case getDetailedProcessInfo (Process 1) (rd_io 1048576 0 1000000000)
           (with_lastIO calculateSystemIOTotal 0 0 0) of
      (r, m') \<Rightarrow> map_sum id (\<lambda>info. (DiskReadRate info, DiskReadPerc info)) r = Inr (1024, 1))"
proof -
  let ?last = "\<lparr>io_ReadBytes = 0, io_WriteBytes = 0, io_Timestamp = 0\<rparr>"
  have d: "deltaSeconds 1000000000 ?last = 1"
    by (simp add: deltaSeconds_def Seconds_def time_Sub_def)
  obtain i1 m1 where g1: "getDetailedProcessInfo (Process 1) (rd_io 2097152 0 1000000000) (with_lastIO 0 0 0 0) = (Inr i1, m1)"
    using getDetailedProcessInfo_disk
    by (cases "getDetailedProcessInfo (Process 1) (rd_io 2097152 0 1000000000) (with_lastIO 0 0 0 0)") blast
  obtain i2 m2 where g2: "getDetailedProcessInfo (Process 1) (rd_io 1048576 0 1000000000) (with_lastIO calculateSystemIOTotal 0 0 0) = (Inr i2, m2)"
    using getDetailedProcessInfo_disk
    by (cases "getDetailedProcessInfo (Process 1) (rd_io 1048576 0 1000000000) (with_lastIO calculateSystemIOTotal 0 0 0)") blast
  have io: "rd_IOCounters (rd_io x 0 1000000000) = Some (x, 0)"
    and now: "rd_now (rd_io x 0 1000000000) = 1000000000" for x
    by (simp_all add: rd_io_def)
  have l: "lastProcessIO (with_lastIO b 0 0 0) (Pid (Process 1)) = Some ?last"
    and b: "systemIOTotal (with_lastIO b 0 0 0) = b" for b
    by (simp_all add: with_lastIO_def NewMonitor_def)
  have d': "0 < deltaSeconds (rd_now (rd_io x 0 1000000000)) ?last" for x by (simp add: now d)
  have r1: "DiskReadRate i1 = 2048"
    using getDetailedProcessInfo_rates(1) [OF g1 io l d'] by (simp add: now d)
  have r2: "DiskReadRate i2 = 1024"
    using getDetailedProcessInfo_rates(1) [OF g2 io l d'] by (simp add: now d)
  have b1: "0 \<le> systemIOTotal (with_lastIO 0 0 0 0)"
    and b2: "0 \<le> systemIOTotal (with_lastIO calculateSystemIOTotal 0 0 0)"
    by (simp_all add: b calculateSystemIOTotal_def)
  have p1: "DiskReadPerc i1 = 2"
    using disk_percentage [OF g1 b1] r1 by (simp add: b)
  have p2: "DiskReadPerc i2 = 1"
    using disk_percentage [OF g2 b2] r2 by (simp add: b calculateSystemIOTotal_def)
  show ?thesis by (simp add: g1 g2 r1 r2 p1 p2)
qed

lemmas cycle_defs = UpdateMetrics_def updateSystemMetrics_def updateProcessMetrics_def env2_def
  rd_cpu_def getBasicProcessInfo_def getDetailedProcessInfo_def zero_ProcessInfo_def
  sortProcessesByResourceUsage_def keepTop_def sortProcesses_def ref_runtime_def
  insertion_sort_def NewMonitor_def calculateSystemIOTotal_def Let_def

lemma sortProcessesByResourceUsage_score:
  "sortProcessesByResourceUsage rt ps = sort_Slice rt (\<lambda>pi pj. score pi > score pj) ps"
  by (simp add: sortProcessesByResourceUsage_def score_def Let_def)

lemma strict_weak_score: "strict_weak (\<lambda>pi pj. score pi > score pj)"
  by (auto simp: strict_weak_def)

lemma sort_contract_mset: "sort_contract rt \<Longrightarrow> mset (sort_Slice rt lt xs) = mset xs"
  by (simp add: sort_contract_def)

lemma sort_contract_length: "sort_contract rt \<Longrightarrow> length (sort_Slice rt lt xs) = length xs"
  using sort_contract_mset [of rt lt xs] by (metis size_mset)

lemma sort_contract_sorted:
  "sort_contract rt \<Longrightarrow> strict_weak lt \<Longrightarrow> sorted_wrt (\<lambda>a b. \<not> lt b a) (sort_Slice rt lt xs)"
  by (simp add: sort_contract_def)

lemma ranked_sorted:
  assumes "sort_contract rt"
  shows "sorted_wrt (\<lambda>a b. score b \<le> score a) (sortProcessesByResourceUsage rt ps)"
proof -
  have "sorted_wrt (\<lambda>a b. \<not> score b > score a) (sortProcessesByResourceUsage rt ps)"
    unfolding sortProcessesByResourceUsage_score
    by (rule sort_contract_sorted [OF assms strict_weak_score])
  then show ?thesis by (simp add: not_less)
qed

lemma keepTop_take: "keepTop K xs = take K xs"
  by (simp add: keepTop_def)

lemma top_over_rest:
  assumes "sorted_wrt (\<lambda>a b. score b \<le> score a) xs"
  shows "\<forall>a \<in> set (take K xs). \<forall>b \<in> set (drop K xs). score b \<le> score a"
proof -
  have "sorted_wrt (\<lambda>a b. score b \<le> score a) (take K xs @ drop K xs)" using assms by simp
  then show ?thesis unfolding sorted_wrt_append by blast
qed

lemma three_ranked:
  assumes m: "mset xs = {#p1, p2, p3#}" and s: "sorted_wrt (\<lambda>a b. score b \<le> score a) xs"
    and o: "score p2 < score p1" "score p3 < score p2"
  shows "xs = [p1, p2, p3]"
proof -
  have "size (mset xs) = 3" unfolding m by simp
  then have "length xs = 3" by simp
  then obtain a b c where x: "xs = [a, b, c]"
    by (auto simp: length_Suc_conv numeral_3_eq_3)
  have ord: "score b \<le> score a" "score c \<le> score a" "score c \<le> score b"
    using s x by simp_all
  have "set_mset (mset xs) = {p1, p2, p3}" unfolding m by simp
  then have se: "{a, b, c} = {p1, p2, p3}" using x by simp
  have mem: "p1 = a \<or> p1 = b \<or> p1 = c" "p2 = a \<or> p2 = b \<or> p2 = c"
    "p3 = a \<or> p3 = b \<or> p3 = c"
    using se by blast+
  have ne: "p1 \<noteq> p2" "p2 \<noteq> p3" "p1 \<noteq> p3" using o by auto
  have a: "a = p1"
  proof (rule ccontr)
    assume "a \<noteq> p1"
    then have "p1 = b \<or> p1 = c" using mem(1) by auto
    then have "score p1 \<le> score a" using ord by auto
    moreover have "a = p2 \<or> a = p3" using se \<open>a \<noteq> p1\<close> by blast
    ultimately show False using o by auto
  qed
  have c: "c = p3"
  proof (rule ccontr)
    assume "c \<noteq> p3"
    then have "p3 = a \<or> p3 = b" using mem(3) by auto
    then have "score c \<le> score p3" using ord by auto
    moreover have "c = p1 \<or> c = p2" using se \<open>c \<noteq> p3\<close> by blast
    ultimately show False using o by auto
  qed
  have b: "b = p2" using mem(2) a c ne by auto
  show ?thesis using x a b c by simp
qed

text \<open>
  Claim C6 (prioritizer). For every \<^verbatim>\<open>sort.Slice\<close> that meets its contract:
  \<^verbatim>\<open>sortProcessesByResourceUsage\<close> permutes the processes read and leaves them in
  descending order of CPU percentage plus memory percentage; \<open>keepTop K\<close> keeps the first
  \<open>K\<close> of them, all of them when there are at most \<open>K\<close>, and no process kept scores
  below one that is dropped. Three processes 1, 2, 3 with CPU percentages 90, 10, 5 (and
  equal memory percentages), in any order, are cut to the processes 1 and 2 by
  \<open>K = 2\<close>. \<^verbatim>\<open>updateProcessMetrics\<close> calls \<open>keepTop\<close> with the constant 150.
\<close>

theorem prioritizer_keeps_top_K:
  assumes "sort_contract rt"
  shows "mset (sortProcessesByResourceUsage rt ps) = mset ps \<and>
         sorted_wrt (\<lambda>a b. score b \<le> score a) (sortProcessesByResourceUsage rt ps) \<and>
         keepTop K (sortProcessesByResourceUsage rt ps) = take K (sortProcessesByResourceUsage rt ps) \<and>
         length (keepTop K (sortProcessesByResourceUsage rt ps)) = min K (length ps) \<and>
         (length ps \<le> K \<longrightarrow>
            keepTop K (sortProcessesByResourceUsage rt ps) = sortProcessesByResourceUsage rt ps) \<and>
         (\<forall>a \<in> set (keepTop K (sortProcessesByResourceUsage rt ps)).
            \<forall>b \<in> set (drop K (sortProcessesByResourceUsage rt ps)). score b \<le> score a) \<and>
         (\<forall>p1 p2 p3.
            mset ps = {#p1, p2, p3#} \<and> PID p1 = 1 \<and> PID p2 = 2 \<and> PID p3 = 3 \<and>
            CPUPercent p1 = 90 \<and> CPUPercent p2 = 10 \<and> CPUPercent p3 = 5 \<and>
            MemoryPerc p1 = MemoryPerc p2 \<and> MemoryPerc p2 = MemoryPerc p3 \<longrightarrow>
            map PID (keepTop 2 (sortProcessesByResourceUsage rt ps)) = [1, 2])"
proof -
  let ?r = "sortProcessesByResourceUsage rt ps"
  have m: "mset ?r = mset ps"
    unfolding sortProcessesByResourceUsage_score by (rule sort_contract_mset [OF assms])
  have l: "length ?r = length ps"
    unfolding sortProcessesByResourceUsage_score by (rule sort_contract_length [OF assms])
  have s: "sorted_wrt (\<lambda>a b. score b \<le> score a) ?r" by (rule ranked_sorted [OF assms])
  have ex: "map PID (keepTop 2 ?r) = [1, 2]"
    if "mset ps = {#p1, p2, p3#} \<and> PID p1 = 1 \<and> PID p2 = 2 \<and> PID p3 = 3 \<and>
        CPUPercent p1 = 90 \<and> CPUPercent p2 = 10 \<and> CPUPercent p3 = 5 \<and>
        MemoryPerc p1 = MemoryPerc p2 \<and> MemoryPerc p2 = MemoryPerc p3" for p1 p2 p3
  proof -
    have "?r = [p1, p2, p3]"
      by (rule three_ranked [OF _ s]) (use that m in \<open>simp_all add: score_def\<close>)
    then show ?thesis using that by (simp add: keepTop_def)
  qed
  have len: "length (keepTop K ?r) = min K (length ps)" by (simp add: keepTop_take l)
  have all: "length ps \<le> K \<longrightarrow> keepTop K ?r = ?r" by (simp add: keepTop_take l)
  have top: "\<forall>a \<in> set (keepTop K ?r). \<forall>b \<in> set (drop K ?r). score b \<le> score a"
    unfolding keepTop_take by (rule top_over_rest [OF s])
  have exa: "\<forall>p1 p2 p3.
      mset ps = {#p1, p2, p3#} \<and> PID p1 = 1 \<and> PID p2 = 2 \<and> PID p3 = 3 \<and>
      CPUPercent p1 = 90 \<and> CPUPercent p2 = 10 \<and> CPUPercent p3 = 5 \<and>
      MemoryPerc p1 = MemoryPerc p2 \<and> MemoryPerc p2 = MemoryPerc p3 \<longrightarrow>
      map PID (keepTop 2 ?r) = [1, 2]"
    using ex by blast
  show ?thesis
    by (intro conjI) (fact m, fact s, fact keepTop_take, fact len, fact all, fact top, fact exa)
qed

text \<open>Witness: the reference runtime on the processes 3, 1, 2 with CPU percentages 5,
  90, 10.\<close>

theorem prioritizer_keeps_top_K_witness:
  "map PID (keepTop 2 (sortProcessesByResourceUsage ref_runtime [basic 3 5, basic 1 90, basic 2 10]))
     = [1, 2] \<and>
   length (keepTop 150 (sortProcessesByResourceUsage ref_runtime [basic 3 5, basic 1 90, basic 2 10]))
     = 3"
proof -
  have m: "mset [basic 3 5, basic 1 90, basic 2 10] = {#basic 1 90, basic 2 10, basic 3 5#}"
    by simp
  have f: "PID (basic i c) = i" "CPUPercent (basic i c) = c" "MemoryPerc (basic i c) = 0" for i c
    by (simp_all add: basic_def zero_ProcessInfo_def)
  from prioritizer_keeps_top_K [OF sort_contract_ref_runtime, of "[basic 3 5, basic 1 90, basic 2 10]" 2]
  have "mset [basic 3 5, basic 1 90, basic 2 10] = {#basic 1 90, basic 2 10, basic 3 5#} \<and>
      PID (basic 1 90) = 1 \<and> PID (basic 2 10) = 2 \<and> PID (basic 3 5) = 3 \<and>
      CPUPercent (basic 1 90) = 90 \<and> CPUPercent (basic 2 10) = 10 \<and> CPUPercent (basic 3 5) = 5 \<and>
      MemoryPerc (basic 1 90) = MemoryPerc (basic 2 10) \<and>
      MemoryPerc (basic 2 10) = MemoryPerc (basic 3 5) \<longrightarrow>
      map PID (keepTop 2 (sortProcessesByResourceUsage ref_runtime [basic 3 5, basic 1 90, basic 2 10])) = [1, 2]"
    by blast
  then have a: "map PID (keepTop 2 (sortProcessesByResourceUsage ref_runtime [basic 3 5, basic 1 90, basic 2 10])) = [1, 2]"
    using m f by simp
  from prioritizer_keeps_top_K [OF sort_contract_ref_runtime, of "[basic 3 5, basic 1 90, basic 2 10]" 150]
  have "length (keepTop 150 (sortProcessesByResourceUsage ref_runtime [basic 3 5, basic 1 90, basic 2 10]))
      = min 150 (length [basic 3 5, basic 1 90, basic 2 10])"
    by blast
  then have b: "length (keepTop 150 (sortProcessesByResourceUsage ref_runtime [basic 3 5, basic 1 90, basic 2 10])) = 3"
    by simp
  show ?thesis using a b by simp
qed

lemma secondPass_length:
  "secondPass rt env stats j basics procs m h = (procs', m', h') \<Longrightarrow>
     length procs' \<le> length procs + length basics"
proof (induction basics arbitrary: j procs m h)
  case Nil
  then show ?case by simp
next
  case (Cons b basics)
  show ?case
  proof (cases "stats (PID b)")
    case None
    with Cons.prems have "secondPass rt env stats (j + 1) basics procs m h = (procs', m', h')"
      by simp
    from Cons.IH [OF this] show ?thesis by simp
  next
    case (Some proc)
    obtain r m1 where g: "getDetailedProcessInfo proc (detailed_read env j) m = (r, m1)"
      by (cases "getDetailedProcessInfo proc (detailed_read env j) m")
    show ?thesis
    proof (cases r)
      case (Inl err)
      with Cons.prems Some g
      have "secondPass rt env stats (j + 1) basics procs m1 h = (procs', m', h')" by simp
      from Cons.IH [OF this] show ?thesis by simp
    next
      case (Inr info)
      obtain m2 h2 where u: "updateProcessTimeSeriesMetrics rt info (series_now env j) m1 h = (m2, h2)"
        by (cases "updateProcessTimeSeriesMetrics rt info (series_now env j) m1 h")
      with Cons.prems Some g Inr
      have "secondPass rt env stats (j + 1) basics (procs @ [info]) m2 h2 = (procs', m', h')"
        by simp
      from Cons.IH [OF this] show ?thesis by simp
    qed
  qed
qed

lemma length_keepTop: "length (keepTop K xs) \<le> K"
  by (simp add: keepTop_def)

lemma processes_sortProcesses:
  "sort_contract rt \<Longrightarrow> length (processes (sortProcesses rt m)) = length (processes m)"
  by (simp add: sortProcesses_def sort_contract_length)

lemma updateProcessMetrics_length:
  assumes "sort_contract rt" "updateProcessMetrics rt env m h = (None, m', h')"
  shows "length (processes m') \<le> 150"
proof -
  obtain pids where p: "process_Pids env = Inr pids"
    using assms(2) by (cases "process_Pids env") (simp_all add: updateProcessMetrics_def)
  let ?m = "m\<lparr>systemIOTotal := calculateSystemIOTotal\<rparr>"
  obtain stats alls where f: "firstPass env ?m 0 pids Map.empty [] = Inr (stats, alls)"
    using assms(2) p
    by (cases "firstPass env ?m 0 pids Map.empty []") (auto simp: updateProcessMetrics_def Let_def)
  let ?top = "keepTop 150 (sortProcessesByResourceUsage rt alls)"
  obtain procs m2 h2 where s: "secondPass rt env stats 0 ?top [] ?m h = (procs, m2, h2)"
    by (cases "secondPass rt env stats 0 ?top [] ?m h")
  have m': "m' = sortProcesses rt (m2\<lparr>processes := procs, lastProcessStats := stats\<rparr>)"
    using assms(2) p f s by (simp add: updateProcessMetrics_def Let_def)
  have "length procs \<le> length ?top" using secondPass_length [OF s] by simp
  also have "\<dots> \<le> 150" by (rule length_keepTop)
  finally show ?thesis
    unfolding m' by (simp add: processes_sortProcesses [OF assms(1)])
qed

lemma updateProcessMetrics_error:
  assumes "updateProcessMetrics rt env m h = (Some err, m', h')"
  shows "processes m' = processes m" "h' = h" "processMetrics m' = processMetrics m"
  using assms
  by (auto simp: updateProcessMetrics_def Let_def split_beta split: sum.splits)

lemma updateSystemMetrics_processes:
  "updateSystemMetrics env m = (r, m') \<Longrightarrow>
     processes m' = processes m \<and> processMetrics m' = processMetrics m \<and>
     systemIOTotal m' = systemIOTotal m \<and> (r \<noteq> None \<longrightarrow> m' = m)"
  by (auto simp: updateSystemMetrics_def Let_def split: sum.splits)

text \<open>
  Claim C5 (the published list is capped). For every \<^verbatim>\<open>sort.Slice\<close> that meets its
  contract, every registry and everything the operating system may answer: a cycle
  that completes publishes at most 150 processes, and a cycle that fails leaves the
  published list as it was.
\<close>

theorem published_list_within_cap:
  assumes "sort_contract rt" "UpdateMetrics rt env m h = (r, m', h')"
  shows "(r = None \<longrightarrow> length (GetProcesses m') \<le> 150) \<and>
         (r \<noteq> None \<longrightarrow> GetProcesses m' = GetProcesses m)"
proof -
  obtain r1 m1 where s: "updateSystemMetrics env m = (r1, m1)"
    by (cases "updateSystemMetrics env m")
  note sp = updateSystemMetrics_processes [OF s]
  show ?thesis
  proof (cases r1)
    case (Some err)
    with assms(2) s sp show ?thesis by (auto simp: UpdateMetrics_def GetProcesses_def)
  next
    case None
    obtain r2 m2 h2 where u: "updateProcessMetrics rt env m1 h = (r2, m2, h2)"
      by (cases "updateProcessMetrics rt env m1 h")
    show ?thesis
    proof (cases r2)
      case None': None
      with assms(2) s None u have "r = None" "m' = m2" by (simp_all add: UpdateMetrics_def)
      then show ?thesis
        using updateProcessMetrics_length [OF assms(1)] u None' by (simp add: GetProcesses_def)
    next
      case (Some err)
      with assms(2) s None u have "r \<noteq> None" "m' = m2" by (auto simp: UpdateMetrics_def)
      then show ?thesis
        using updateProcessMetrics_error(1) [of rt env m1 h err m2 h2] u Some sp
        by (auto simp: GetProcesses_def)
    qed
  qed
qed

lemma cycle_env2:
  "(case UpdateMetrics ref_runtime env2 NewMonitor empty_heap of
      (r, m, h) \<Rightarrow> r = None \<and> map PID (processes m) = [2, 1])"
  by (simp add: cycle_defs updateProcessTimeSeriesMetrics_def split_beta)

text \<open>Witness: the cycle over the processes 1 and 2 completes and publishes both, the
  busier one first.\<close>

theorem published_list_within_cap_witness:
  "(case UpdateMetrics ref_runtime env2 NewMonitor empty_heap of
      (r, m, h) \<Rightarrow> r = None \<and> map PID (GetProcesses m) = [2, 1] \<and> length (GetProcesses m) \<le> 150)"
proof -
  obtain r m h where u: "UpdateMetrics ref_runtime env2 NewMonitor empty_heap = (r, m, h)"
    by (cases "UpdateMetrics ref_runtime env2 NewMonitor empty_heap")
  from published_list_within_cap [OF sort_contract_ref_runtime u] cycle_env2
  show ?thesis by (simp add: u GetProcesses_def)
qed

text \<open>
  Claim C3, as amended. When the system-totals read fails (\<^verbatim>\<open>cpu.Percent\<close> or
  \<^verbatim>\<open>mem.VirtualMemory\<close> returns an error), \<^verbatim>\<open>UpdateMetrics\<close> returns that error, wrapped,
  at once: registry and heap are unchanged, so the cycle neither enumerates the processes
  nor publishes a process list.
\<close>

theorem system_read_failure_aborts_cycle:
  assumes "cpu_Percent env = Inl err \<or> (\<not> isl (cpu_Percent env) \<and> mem_VirtualMemory env = Inl err)"
  shows "UpdateMetrics rt env m h = (Some (Wrapped ''failed to update system metrics'' err), m, h)"
  using assms
  by (cases "cpu_Percent env")
    (auto simp: UpdateMetrics_def updateSystemMetrics_def Let_def)

text \<open>Witness: a failing \<^verbatim>\<open>cpu.Percent\<close>, and a failing \<^verbatim>\<open>mem.VirtualMemory\<close>.\<close>

theorem system_read_failure_aborts_cycle_witness:
  "UpdateMetrics ref_runtime env_fail NewMonitor empty_heap =
     (Some (Wrapped ''failed to update system metrics'' (OSError 1)), NewMonitor, empty_heap) \<and>
   UpdateMetrics ref_runtime (env2\<lparr>mem_VirtualMemory := Inl (OSError 2)\<rparr>) NewMonitor empty_heap =
     (Some (Wrapped ''failed to update system metrics'' (OSError 2)), NewMonitor, empty_heap)"
proof -
  have a: "cpu_Percent env_fail = Inl (OSError 1)"
    by (simp add: env_fail_def)
  have b: "\<not> isl (cpu_Percent (env2\<lparr>mem_VirtualMemory := Inl (OSError 2)\<rparr>))"
    "mem_VirtualMemory (env2\<lparr>mem_VirtualMemory := Inl (OSError 2)\<rparr>) = Inl (OSError 2)"
    by (simp_all add: env2_def)
  show ?thesis
    using system_read_failure_aborts_cycle [of env_fail "OSError 1" ref_runtime NewMonitor empty_heap]
      system_read_failure_aborts_cycle [of "env2\<lparr>mem_VirtualMemory := Inl (OSError 2)\<rparr>" "OSError 2"
        ref_runtime NewMonitor empty_heap] a b
    by simp
qed

text \<open>
  Claim C3 as stated fails: with a failing \<^verbatim>\<open>cpu.Percent\<close> and the live processes 1 and
  2, the cycle publishes nothing and does not even set the I/O budget, although the
  process update alone, on the same input, completes and publishes both processes.
\<close>

theorem system_read_failure_blocks_process_update:
  "processes (fst (snd (UpdateMetrics ref_runtime env_fail NewMonitor empty_heap))) = [] \<and>
   systemIOTotal (fst (snd (UpdateMetrics ref_runtime env_fail NewMonitor empty_heap))) = 0 \<and>
   fst (updateProcessMetrics ref_runtime env_fail NewMonitor empty_heap) = None \<and>
   map PID (processes (fst (snd (updateProcessMetrics ref_runtime env_fail NewMonitor empty_heap))))
     = [2, 1]"
  by (simp add: cycle_defs env_fail_def updateProcessTimeSeriesMetrics_def split_beta)

lemma getDetailedProcessInfo_frame:
  "getDetailedProcessInfo proc rd m = (r, m') \<Longrightarrow>
     processMetrics m' = processMetrics m \<and> systemIOTotal m' = systemIOTotal m"
  by (auto simp: getDetailedProcessInfo_def Let_def split: sum.splits option.splits prod.splits)

lemma update_systemIOTotal:
  "updateProcessTimeSeriesMetrics rt info t m h = (m', h') \<Longrightarrow> systemIOTotal m' = systemIOTotal m"
  by (auto simp: updateProcessTimeSeriesMetrics_def Let_def split: option.splits prod.splits)

lemma secondPass_invariants:
  "secondPass rt env stats j basics procs m h = (procs', m', h') \<Longrightarrow> monitor_ok m h \<Longrightarrow>
     monitor_ok m' h' \<and> systemIOTotal m' = systemIOTotal m"
proof (induction basics arbitrary: j procs m h)
  case Nil
  then show ?case by simp
next
  case (Cons b basics)
  show ?case
  proof (cases "stats (PID b)")
    case None
    with Cons.prems have "secondPass rt env stats (j + 1) basics procs m h = (procs', m', h')"
      by simp
    from Cons.IH [OF this Cons.prems(2)] show ?thesis .
  next
    case (Some proc)
    obtain r m1 where g: "getDetailedProcessInfo proc (detailed_read env j) m = (r, m1)"
      by (cases "getDetailedProcessInfo proc (detailed_read env j) m")
    note f = getDetailedProcessInfo_frame [OF g]
    have ok1: "monitor_ok m1 h" using Cons.prems(2) f by (simp add: monitor_ok_def)
    show ?thesis
    proof (cases r)
      case (Inl err)
      with Cons.prems Some g
      have "secondPass rt env stats (j + 1) basics procs m1 h = (procs', m', h')" by simp
      from Cons.IH [OF this ok1] f show ?thesis by simp
    next
      case (Inr info)
      obtain m2 h2 where u: "updateProcessTimeSeriesMetrics rt info (series_now env j) m1 h = (m2, h2)"
        by (cases "updateProcessTimeSeriesMetrics rt info (series_now env j) m1 h")
      with Cons.prems Some g Inr
      have "secondPass rt env stats (j + 1) basics (procs @ [info]) m2 h2 = (procs', m', h')"
        by simp
      from Cons.IH [OF this update_monitor_ok [OF ok1 u]] update_systemIOTotal [OF u] f
      show ?thesis by simp
    qed
  qed
qed

lemma updateProcessMetrics_invariants:
  assumes "updateProcessMetrics rt env m h = (r, m', h')" "monitor_ok m h"
  shows "monitor_ok m' h'"
    "systemIOTotal m' = systemIOTotal m \<or> systemIOTotal m' = calculateSystemIOTotal"
proof -
  let ?m = "m\<lparr>systemIOTotal := calculateSystemIOTotal\<rparr>"
  have ok: "monitor_ok ?m h" using assms(2) by (simp add: monitor_ok_def)
  have "monitor_ok m' h' \<and>
    (systemIOTotal m' = systemIOTotal m \<or> systemIOTotal m' = calculateSystemIOTotal)"
  proof (cases "process_Pids env")
    case (Inl err)
    with assms show ?thesis by (simp add: updateProcessMetrics_def)
  next
    case (Inr pids)
    show ?thesis
    proof (cases "firstPass env ?m 0 pids Map.empty []")
      case (Inl err)
      with assms(1) Inr ok show ?thesis by (auto simp: updateProcessMetrics_def Let_def)
    next
      case f: (Inr res)
      obtain stats alls where res: "res = (stats, alls)" by (cases res)
      let ?top = "keepTop 150 (sortProcessesByResourceUsage rt alls)"
      obtain procs m2 h2 where s: "secondPass rt env stats 0 ?top [] ?m h = (procs, m2, h2)"
        by (cases "secondPass rt env stats 0 ?top [] ?m h")
      have m': "m' = sortProcesses rt (m2\<lparr>processes := procs, lastProcessStats := stats\<rparr>)" "h' = h2"
        using assms(1) Inr f res s by (simp_all add: updateProcessMetrics_def Let_def)
      from secondPass_invariants [OF s ok] show ?thesis
        by (simp add: m' monitor_ok_def sortProcesses_def)
    qed
  qed
  then show "monitor_ok m' h'"
    "systemIOTotal m' = systemIOTotal m \<or> systemIOTotal m' = calculateSystemIOTotal"
    by simp_all
qed

lemma UpdateMetrics_invariants:
  assumes "UpdateMetrics rt env m h = (r, m', h')" "monitor_ok m h"
  shows "monitor_ok m' h'"
    "systemIOTotal m' = systemIOTotal m \<or> systemIOTotal m' = calculateSystemIOTotal"
proof -
  obtain r1 m1 where s: "updateSystemMetrics env m = (r1, m1)"
    by (cases "updateSystemMetrics env m")
  note sp = updateSystemMetrics_processes [OF s]
  have ok1: "monitor_ok m1 h" using assms(2) sp by (simp add: monitor_ok_def)
  obtain r2 m2 h2 where u: "updateProcessMetrics rt env m1 h = (r2, m2, h2)"
    by (cases "updateProcessMetrics rt env m1 h")
  note up = updateProcessMetrics_invariants [OF u ok1]
  have "(m' = m1 \<and> h' = h) \<or> (m' = m2 \<and> h' = h2)"
    using assms(1) s u by (auto simp: UpdateMetrics_def split: option.splits)
  then show "monitor_ok m' h'"
    "systemIOTotal m' = systemIOTotal m \<or> systemIOTotal m' = calculateSystemIOTotal"
    using ok1 up sp by auto
qed

lemma EnsureProcessMetrics_systemIOTotal:
  "EnsureProcessMetrics pid m h = (m', h') \<Longrightarrow> systemIOTotal m' = systemIOTotal m"
  by (auto simp: EnsureProcessMetrics_def Let_def split: option.splits prod.splits)

lemma GetCurrentProcessData_invariants:
  assumes "GetCurrentProcessData rt newproc rd tnow pid m h = (r, m', h')" "monitor_ok m h"
  shows "monitor_ok m' h'" "systemIOTotal m' = systemIOTotal m"
proof -
  obtain m1 h1 where e: "EnsureProcessMetrics pid m h = (m1, h1)"
    by (cases "EnsureProcessMetrics pid m h")
  note ok1 = EnsureProcessMetrics_monitor_ok [OF assms(2) e]
  note b1 = EnsureProcessMetrics_systemIOTotal [OF e]
  obtain r2 m2 where g: "getDetailedProcessInfo (Process pid) rd m1 = (r2, m2)"
    by (cases "getDetailedProcessInfo (Process pid) rd m1")
  note f = getDetailedProcessInfo_frame [OF g]
  have ok2: "monitor_ok m2 h1" using ok1 f by (simp add: monitor_ok_def)
  have "monitor_ok m' h' \<and> systemIOTotal m' = systemIOTotal m"
  proof (cases newproc)
    case (Some err)
    with assms(1) e ok1 b1 show ?thesis by (simp add: GetCurrentProcessData_def)
  next
    case None
    show ?thesis
    proof (cases r2)
      case (Inl err)
      with assms(1) e g None ok2 b1 f show ?thesis by (simp add: GetCurrentProcessData_def)
    next
      case (Inr info)
      obtain m3 h3 where u: "updateProcessTimeSeriesMetrics rt info tnow m2 h1 = (m3, h3)"
        by (cases "updateProcessTimeSeriesMetrics rt info tnow m2 h1")
      with assms(1) e g None Inr have "m' = m3" "h' = h3"
        by (simp_all add: GetCurrentProcessData_def)
      then show ?thesis
        using update_monitor_ok [OF ok2 u] update_systemIOTotal [OF u] f b1 by simp
    qed
  qed
  then show "monitor_ok m' h'" "systemIOTotal m' = systemIOTotal m" by simp_all
qed

lemma systemIOTotal_NewMonitor: "systemIOTotal NewMonitor = 0"
  by (simp add: NewMonitor_def)

lemma calculateSystemIOTotal_pos: "0 < calculateSystemIOTotal"
  by (simp add: calculateSystemIOTotal_def)

lemma getDetailedProcessInfo_PID:
  "getDetailedProcessInfo proc rd m = (r, m') \<Longrightarrow>
     processes m' = processes m \<and> (\<exists>info. r = Inr info \<and> PID info = Pid proc)"
  by (auto simp: getDetailedProcessInfo_def getBasicProcessInfo_def diskRates_def Let_def
      zero_ProcessInfo_def split: option.splits)

lemma update_processes:
  "updateProcessTimeSeriesMetrics rt info t m h = (m', h') \<Longrightarrow> processes m' = processes m"
  by (auto simp: updateProcessTimeSeriesMetrics_def Let_def split: option.splits prod.splits)

lemma EnsureProcessMetrics_processes:
  "EnsureProcessMetrics pid m h = (m', h') \<Longrightarrow> processes m' = processes m"
  by (auto simp: EnsureProcessMetrics_def Let_def split: option.splits prod.splits)

lemma GetCurrentProcessData_tracks:
  assumes "GetCurrentProcessData rt None rd tnow pid m h = (r, m', h')"
  shows "\<not> isl r" "processMetrics m' pid \<noteq> None" "processes m' = processes m"
proof -
  obtain m1 h1 where e: "EnsureProcessMetrics pid m h = (m1, h1)"
    by (cases "EnsureProcessMetrics pid m h")
  obtain r2 m2 where g: "getDetailedProcessInfo (Process pid) rd m1 = (r2, m2)"
    by (cases "getDetailedProcessInfo (Process pid) rd m1")
  from getDetailedProcessInfo_PID [OF g] obtain info where
    i: "r2 = Inr info" "PID info = pid" "processes m2 = processes m1" by auto
  obtain m3 h3 where u: "updateProcessTimeSeriesMetrics rt info tnow m2 h1 = (m3, h3)"
    by (cases "updateProcessTimeSeriesMetrics rt info tnow m2 h1")
  from assms e g i u have r: "r = Inr info" "m' = m3"
    by (simp_all add: GetCurrentProcessData_def)
  show "\<not> isl r" using r by simp
  show "processMetrics m' pid \<noteq> None"
    using updateProcessTimeSeriesMetrics_tracked [of rt info tnow m2 h1] u r i by simp
  show "processes m' = processes m"
    using update_processes [OF u] i EnsureProcessMetrics_processes [OF e] r by simp
qed

text \<open>
  Claim C4 (cleanup). The claim: cleanup keeps every series of a live process, also one
  made by an explicit request for a live process outside the published list. The code
  takes the identifiers of the published list \<^verbatim>\<open>m.processes\<close> as the live set
  (\<open>CleanupOldMetrics_lookup\<close>). A cycle publishes the processes 2 and 1; process 7 is
  then read with success by \<^verbatim>\<open>GetCurrentProcessData\<close>, which tracks it and stores a
  point; the published list is still 2, 1, and the cleanup removes the series of 7.
\<close>

theorem cleanup_removes_tracked_process_outside_published_list:
  "(case UpdateMetrics ref_runtime env2 NewMonitor empty_heap of
      (r, m, h) \<Rightarrow>
        (case GetCurrentProcessData ref_runtime None (rd_cpu 1) 2000000000 7 m h of
           (r', m', h') \<Rightarrow>
             r = None \<and> map PID (processes m') = [2, 1] \<and> \<not> isl r' \<and>
             processMetrics m' 7 \<noteq> None \<and>
             processMetrics (CleanupOldMetrics m') 7 = None))"
proof -
  obtain r m h where u: "UpdateMetrics ref_runtime env2 NewMonitor empty_heap = (r, m, h)"
    by (cases "UpdateMetrics ref_runtime env2 NewMonitor empty_heap")
  obtain r' m' h' where g: "GetCurrentProcessData ref_runtime None (rd_cpu 1) 2000000000 7 m h = (r', m', h')"
    by (cases "GetCurrentProcessData ref_runtime None (rd_cpu 1) 2000000000 7 m h")
  have c: "r = None" "map PID (processes m) = [2, 1]" using cycle_env2 by (simp_all add: u)
  note t = GetCurrentProcessData_tracks [OF g]
  have "PID ` set (processes m') = {2, 1}"
    using c(2) t(3) by (metis list.set_map list.simps(15) empty_set)
  then have "processMetrics (CleanupOldMetrics m') 7 = None"
    by (simp add: CleanupOldMetrics_lookup)
  then show ?thesis using c t by (simp add: u g)
qed

end
